theory Spec2Isabelle
  imports Main "HOL-Library.AList" "HOL-Library.List_Lexorder"
begin

section \<open>Data model of i18nstats.py\<close>

subsection \<open>Python strings and decoded JSON values\<close>

text \<open>
  A Python \<open>str\<close> is a sequence of Unicode code points. The formatter rewrites code
  points above 255 (U+2018, U+2019, U+2212, U+2013), so a string is a list of code
  points, not of 8-bit characters. \<open>py\<close> reads an ASCII literal of the source.
\<close>

type_synonym str = "nat list"

definition py :: "string \<Rightarrow> str" where
  "py s = map of_char s"

text \<open>
  What \<open>json.loads\<close> returns. An object is a Python \<open>dict\<close>: its items in insertion
  order, looked up with \<open>map_of\<close>; a decoded object has distinct keys. Numbers are
  Python's unbounded integers; floating-point numbers are outside this model.
\<close>

datatype json =
    JNull
  | JBool bool
  | JInt int
  | JString str
  | JArray "json list"
  | JObject "(str \<times> json) list"

text \<open>
  Python's \<open>==\<close> on decoded values: \<open>True == 1\<close> and \<open>False == 0\<close>, lists compare
  element by element, two dicts are equal when they have the same number of items and
  every item of the left one is found, with an equal value, in the right one.
\<close>

fun py_num :: "json \<Rightarrow> int option" where
  "py_num (JBool b) = Some (if b then 1 else 0)"
| "py_num (JInt i) = Some i"
| "py_num _ = None"

fun py_eq :: "json \<Rightarrow> json \<Rightarrow> bool"
  and py_eq_list :: "json list \<Rightarrow> json list \<Rightarrow> bool"
  and py_eq_items :: "(str \<times> json) list \<Rightarrow> (str \<times> json) list \<Rightarrow> bool" where
  "py_eq JNull y = (y = JNull)"
| "py_eq (JBool b) y = (py_num y = Some (if b then 1 else 0))"
| "py_eq (JInt i) y = (py_num y = Some i)"
| "py_eq (JString s) y = (y = JString s)"
| "py_eq (JArray xs) y = (case y of JArray ys \<Rightarrow> py_eq_list xs ys | _ \<Rightarrow> False)"
| "py_eq (JObject a) y =
     (case y of JObject b \<Rightarrow> length a = length b \<and> py_eq_items a b | _ \<Rightarrow> False)"
| "py_eq_list [] ys = (ys = [])"
| "py_eq_list (x # xs) ys =
     (case ys of [] \<Rightarrow> False | y # ys' \<Rightarrow> py_eq x y \<and> py_eq_list xs ys')"
| "py_eq_items [] b = True"
| "py_eq_items (kv # a) b =
     (case map_of b (fst kv) of
        None \<Rightarrow> False
      | Some w \<Rightarrow> py_eq (snd kv) w \<and> py_eq_items a b)"

text \<open>The values \<open>json.loads\<close> can return: every object has distinct keys.\<close>

fun decoded :: "json \<Rightarrow> bool"
  and decoded_list :: "json list \<Rightarrow> bool"
  and decoded_items :: "(str \<times> json) list \<Rightarrow> bool" where
  "decoded JNull = True"
| "decoded (JBool b) = True"
| "decoded (JInt i) = True"
| "decoded (JString s) = True"
| "decoded (JArray xs) = decoded_list xs"
| "decoded (JObject a) = (distinct (map fst a) \<and> decoded_items a)"
| "decoded_list [] = True"
| "decoded_list (x # xs) = (decoded x \<and> decoded_list xs)"
| "decoded_items [] = True"
| "decoded_items (kv # a) = (decoded (snd kv) \<and> decoded_items a)"

section \<open>The canonical formatter\<close>

subsection \<open>\<open>json.dumps(x, ensure_ascii=False, sort_keys=True, indent=4, separators=(',', ': '))\<close>\<close>

text \<open>
  The encoder of Python's \<open>json\<close> module, which \<open>format_json\<close> calls with these
  options. A string is quoted; the backslash, the double quote and the control
  characters below U+0020 are escaped, every other code point is written as it is.
\<close>

definition hex_digit :: "nat \<Rightarrow> nat" where
  "hex_digit d = (if d < 10 then 48 + d else 87 + d)"

definition escape_char :: "nat \<Rightarrow> str" where
  "escape_char c =
     (if c = 92 then [92, 92]
      else if c = 34 then [92, 34]
      else if c = 8 then [92, 98]
      else if c = 12 then [92, 102]
      else if c = 10 then [92, 110]
      else if c = 13 then [92, 114]
      else if c = 9 then [92, 116]
      else if c < 32 then [92, 117, 48, 48, hex_digit (c div 16), hex_digit (c mod 16)]
      else [c])"

definition encode_string :: "str \<Rightarrow> str" where
  "encode_string s = [34] @ concat (map escape_char s) @ [34]"

text \<open>The decimal digits of a natural number, and \<open>int.__repr__\<close>.\<close>

fun digits :: "nat \<Rightarrow> str" where
  "digits n = (if n < 10 then [48 + n] else digits (n div 10) @ [48 + n mod 10])"

declare digits.simps [simp del]

definition int_repr :: "int \<Rightarrow> str" where
  "int_repr i = (if i < 0 then 45 # digits (nat (- i)) else digits (nat i))"

text \<open>\<open>sep.join(parts)\<close>.\<close>

fun join :: "str \<Rightarrow> str list \<Rightarrow> str" where
  "join sep [] = []"
| "join sep [x] = x"
| "join sep (x # y # ys) = x @ sep @ join sep (y # ys)"

definition newline_indent :: "nat \<Rightarrow> str" where
  "newline_indent level = 10 # replicate (4 * level) 32"

text \<open>
  \<open>dumps level x\<close> is the text the encoder yields for \<open>x\<close> at nesting depth \<open>level\<close>;
  with \<open>sort_keys\<close> the items of a dict are written in the order of their keys
  (Python compares strings code point by code point). \<open>dumps_items\<close> renders the
  value of each item beside its key; the rendered items are then put in key order.
\<close>

fun dumps :: "nat \<Rightarrow> json \<Rightarrow> str"
  and dumps_list :: "nat \<Rightarrow> json list \<Rightarrow> str list"
  and dumps_items :: "nat \<Rightarrow> (str \<times> json) list \<Rightarrow> (str \<times> str) list" where
  "dumps level JNull = py ''null''"
| "dumps level (JBool b) = (if b then py ''true'' else py ''false'')"
| "dumps level (JInt i) = int_repr i"
| "dumps level (JString s) = encode_string s"
| "dumps level (JArray xs) =
     (if xs = [] then py ''[]''
      else [91] @ newline_indent (level + 1)
           @ join (44 # newline_indent (level + 1)) (dumps_list (level + 1) xs)
           @ newline_indent level @ [93])"
| "dumps level (JObject a) =
     (if a = [] then py ''{}''
      else [123] @ newline_indent (level + 1)
           @ join (44 # newline_indent (level + 1))
               (map (\<lambda>kr. encode_string (fst kr) @ [58, 32] @ snd kr)
                  (sort_key fst (dumps_items (level + 1) a)))
           @ newline_indent level @ [125])"
| "dumps_list level [] = []"
| "dumps_list level (x # xs) = dumps level x # dumps_list level xs"
| "dumps_items level [] = []"
| "dumps_items level (kv # a) = (fst kv, dumps level (snd kv)) # dumps_items level a"

subsection \<open>\<open>str.replace\<close>, \<open>re.sub\<close> at line starts, substring test\<close>

text \<open>
  \<open>s.replace(old, new)\<close>: the occurrences of \<open>old\<close> are replaced from left to right,
  without overlap, and the text a replacement produced is not scanned again.
\<close>

function replace :: "str \<Rightarrow> str \<Rightarrow> str \<Rightarrow> str" where
  "replace [] new s = new @ concat (map (\<lambda>c. c # new) s)"
| "replace (c # old) new [] = []"
| "replace (c # old) new (x # s) =
     (if take (Suc (length old)) (x # s) = c # old
      then new @ replace (c # old) new (drop (length old) s)
      else x # replace (c # old) new s)"
  by pat_completeness auto
termination
  by (relation "measure (\<lambda>(old, new, s). length s)") auto

text \<open>
  \<open>re.sub("^" + "    " * i, "\t" * i, text, flags=re.MULTILINE)\<close>: with \<open>MULTILINE\<close>,
  \<open>^\<close> matches at the start of the text and after each newline, so every line that
  begins with \<open>4 * i\<close> spaces has those spaces replaced by \<open>i\<close> tabs.
\<close>

fun split_lines :: "str \<Rightarrow> str list" where
  "split_lines [] = [[]]"
| "split_lines (c # cs) =
     (if c = 10 then [] # split_lines cs
      else (case split_lines cs of l # ls \<Rightarrow> (c # l) # ls | [] \<Rightarrow> [[c]]))"

definition tab_line :: "nat \<Rightarrow> str \<Rightarrow> str" where
  "tab_line i l =
     (if take (4 * i) l = replicate (4 * i) 32 then replicate i 9 @ drop (4 * i) l else l)"

definition sub_indent :: "nat \<Rightarrow> str \<Rightarrow> str" where
  "sub_indent i s = join [10] (map (tab_line i) (split_lines s))"

text \<open>\<open>pat in s\<close> for strings.\<close>

fun contains :: "str \<Rightarrow> str \<Rightarrow> bool" where
  "contains pat [] = (pat = [])"
| "contains pat (c # cs) = (take (length pat) (c # cs) = pat \<or> contains pat cs)"

subsection \<open>\<open>format_json\<close> (lines 32-41)\<close>

definition format_json :: "json \<Rightarrow> str" where
  "format_json json_data =
     (let formatted_data = dumps 0 json_data;
          formatted_data = replace [8217] [39] (replace [8216] [39] formatted_data);
          formatted_data = replace [8211] [45] (replace [8722] [45] formatted_data);
          formatted_data =
            replace [32, 92, 110] [92, 110] (replace [92, 114, 92, 110] [92, 110] formatted_data);
          formatted_data = replace [93, 91] [93, 32, 91] formatted_data;
          formatted_data = foldl (\<lambda>text i. sub_indent i text) formatted_data [8, 7, 6, 5, 4, 3, 2, 1]
      in formatted_data @ [10])"

subsection \<open>\<open>json.loads\<close>\<close>

text \<open>
  The decoder of Python's \<open>json\<close> module: whitespace is space, tab, newline and
  carriage return; a string ends at the first unescaped double quote and may not
  hold a raw control character; \<open>\uXXXX\<close> escapes are decoded and a surrogate pair
  is joined; an integer is \<open>-?(0|[1-9][0-9]*)\<close>. \<open>None\<close> stands for \<open>ValueError\<close>.
  A number with a fraction or an exponent, \<open>NaN\<close> and \<open>Infinity\<close> decode to floats
  in Python; they are outside this model, which gives \<open>None\<close> for them.
\<close>

definition is_ws :: "nat \<Rightarrow> bool" where
  "is_ws c = (c = 32 \<or> c = 9 \<or> c = 10 \<or> c = 13)"

definition skip_ws :: "str \<Rightarrow> str" where
  "skip_ws s = dropWhile is_ws s"

definition hex_val :: "nat \<Rightarrow> nat option" where
  "hex_val c =
     (if 48 \<le> c \<and> c \<le> 57 then Some (c - 48)
      else if 97 \<le> c \<and> c \<le> 102 then Some (c - 87)
      else if 65 \<le> c \<and> c \<le> 70 then Some (c - 55)
      else None)"

fun decode_uXXXX :: "str \<Rightarrow> nat option" where
  "decode_uXXXX (a # b # c # d # rest) =
     (case (hex_val a, hex_val b, hex_val c, hex_val d) of
        (Some x, Some y, Some z, Some u) \<Rightarrow> Some (((x * 16 + y) * 16 + z) * 16 + u)
      | _ \<Rightarrow> None)"
| "decode_uXXXX _ = None"

definition unescape :: "nat \<Rightarrow> nat option" where
  "unescape e =
     (if e = 34 then Some 34
      else if e = 92 then Some 92
      else if e = 47 then Some 47
      else if e = 98 then Some 8
      else if e = 102 then Some 12
      else if e = 110 then Some 10
      else if e = 114 then Some 13
      else if e = 116 then Some 9
      else None)"

definition cons_char :: "nat \<Rightarrow> (str \<times> str) option \<Rightarrow> (str \<times> str) option" where
  "cons_char c r = map_option (\<lambda>sr. (c # fst sr, snd sr)) r"

text \<open>\<open>scanstring\<close>, from the character after the opening quote: the string and the rest.\<close>

fun scanstring :: "str \<Rightarrow> (str \<times> str) option" where
  "scanstring [] = None"
| "scanstring (c # cs) =
     (if c = 34 then Some ([], cs)
      else if c = 92 then
        (case cs of
           [] \<Rightarrow> None
         | e # cs' \<Rightarrow>
             if e = 117 then
               (case decode_uXXXX cs' of
                  None \<Rightarrow> None
                | Some uni \<Rightarrow>
                    if 55296 \<le> uni \<and> uni \<le> 56319 \<and> take 2 (drop 4 cs') = [92, 117] then
                      (case decode_uXXXX (drop 6 cs') of
                         None \<Rightarrow> None
                       | Some uni2 \<Rightarrow>
                           if 56320 \<le> uni2 \<and> uni2 \<le> 57343 then
                             cons_char (65536 + ((uni - 55296) * 1024 + (uni2 - 56320)))
                               (scanstring (drop 10 cs'))
                           else cons_char uni (scanstring (drop 4 cs')))
                    else cons_char uni (scanstring (drop 4 cs')))
             else
               (case unescape e of
                  None \<Rightarrow> None
                | Some ch \<Rightarrow> cons_char ch (scanstring cs')))
      else if c < 32 then None
      else cons_char c (scanstring cs))"

definition is_digit :: "nat \<Rightarrow> bool" where
  "is_digit c = (48 \<le> c \<and> c \<le> 57)"

definition digits_val :: "str \<Rightarrow> nat" where
  "digits_val ds = foldl (\<lambda>a c. 10 * a + (c - 48)) 0 ds"

definition scan_nat :: "str \<Rightarrow> (nat \<times> str) option" where
  "scan_nat s =
     (case s of
        [] \<Rightarrow> None
      | d # r \<Rightarrow>
          if d = 48 then Some (0, r)
          else if is_digit d then Some (digits_val (takeWhile is_digit s), dropWhile is_digit s)
          else None)"

definition scan_int :: "str \<Rightarrow> (int \<times> str) option" where
  "scan_int s =
     (case s of
        [] \<Rightarrow> None
      | c # r \<Rightarrow>
          if c = 45 then map_option (\<lambda>nr. (- int (fst nr), snd nr)) (scan_nat r)
          else map_option (\<lambda>nr. (int (fst nr), snd nr)) (scan_nat s))"

text \<open>
  \<open>scan_once\<close>, \<open>JSONArray\<close> and \<open>JSONObject\<close> of the decoder. The first argument
  bounds the number of nested calls; \<open>json_loads\<close> gives more than any text needs.
  The pairs of an object are collected into a dict: a repeated key keeps its place
  and takes the last value.
\<close>

fun scan_once :: "nat \<Rightarrow> str \<Rightarrow> (json \<times> str) option"
  and parse_array :: "nat \<Rightarrow> json list \<Rightarrow> str \<Rightarrow> (json \<times> str) option"
  and parse_object :: "nat \<Rightarrow> (str \<times> json) list \<Rightarrow> str \<Rightarrow> (json \<times> str) option" where
  "scan_once 0 s = None"
| "scan_once (Suc n) s =
     (case s of
        [] \<Rightarrow> None
      | c # cs \<Rightarrow>
          if c = 34 then map_option (\<lambda>tr. (JString (fst tr), snd tr)) (scanstring cs)
          else if c = 123 then
            (case skip_ws cs of
               [] \<Rightarrow> None
             | d # r \<Rightarrow> if d = 125 then Some (JObject [], r) else parse_object n [] (d # r))
          else if c = 91 then
            (case skip_ws cs of
               [] \<Rightarrow> None
             | d # r \<Rightarrow> if d = 93 then Some (JArray [], r) else parse_array n [] (d # r))
          else if take 4 s = py ''null'' then Some (JNull, drop 4 s)
          else if take 4 s = py ''true'' then Some (JBool True, drop 4 s)
          else if take 5 s = py ''false'' then Some (JBool False, drop 5 s)
          else map_option (\<lambda>ir. (JInt (fst ir), snd ir)) (scan_int s))"
| "parse_array 0 acc s = None"
| "parse_array (Suc n) acc s =
     (case scan_once n s of
        None \<Rightarrow> None
      | Some (v, r) \<Rightarrow>
          (case skip_ws r of
             [] \<Rightarrow> None
           | d # r' \<Rightarrow>
               if d = 93 then Some (JArray (acc @ [v]), r')
               else if d = 44 then parse_array n (acc @ [v]) (skip_ws r')
               else None))"
| "parse_object 0 acc s = None"
| "parse_object (Suc n) acc s =
     (case s of
        [] \<Rightarrow> None
      | q # r0 \<Rightarrow>
          if q \<noteq> 34 then None
          else
            (case scanstring r0 of
               None \<Rightarrow> None
             | Some (k, r1) \<Rightarrow>
                 (case skip_ws r1 of
                    [] \<Rightarrow> None
                  | colon # r2 \<Rightarrow>
                      if colon \<noteq> 58 then None
                      else
                        (case scan_once n (skip_ws r2) of
                           None \<Rightarrow> None
                         | Some (v, r3) \<Rightarrow>
                             (case skip_ws r3 of
                                [] \<Rightarrow> None
                              | d # r4 \<Rightarrow>
                                  if d = 125 then Some (JObject (AList.update k v acc), r4)
                                  else if d = 44 then
                                    parse_object n (AList.update k v acc) (skip_ws r4)
                                  else None)))))"

definition json_loads :: "str \<Rightarrow> json option" where
  "json_loads s =
     (if take 1 s = [65279] then None
      else
        (case scan_once (2 * length s + 1) (skip_ws s) of
           None \<Rightarrow> None
         | Some (v, r) \<Rightarrow> if skip_ws r = [] then Some v else None))"

section \<open>Arguments, output and files\<close>

subsection \<open>Exceptions, dictionary keys, iteration\<close>

datatype error = TypeError | AttributeError | KeyError | OSError | UnicodeEncodeError

text \<open>
  The key under which a \<open>dict\<close> or \<open>set\<close> files a code. \<open>c.get("code")\<close> is \<open>None\<close>
  for a record without the key and for \<open>"code": null\<close>; \<open>True\<close> and \<open>1\<close> hash and
  compare alike, so they are one key; a list or an object is unhashable and the
  membership test raises \<open>TypeError\<close>.
\<close>

datatype key = KNone | KNum int | KStr str

fun hash_key :: "json option \<Rightarrow> error + key" where
  "hash_key None = Inr KNone"
| "hash_key (Some JNull) = Inr KNone"
| "hash_key (Some (JBool b)) = Inr (KNum (if b then 1 else 0))"
| "hash_key (Some (JInt i)) = Inr (KNum i)"
| "hash_key (Some (JString s)) = Inr (KStr s)"
| "hash_key (Some (JArray xs)) = Inl TypeError"
| "hash_key (Some (JObject a)) = Inl TypeError"

fun json_of_key :: "key \<Rightarrow> json" where
  "json_of_key KNone = JNull"
| "json_of_key (KNum i) = JInt i"
| "json_of_key (KStr s) = JString s"

text \<open>\<open>c.get(k)\<close>: only a dict has the method.\<close>

fun py_get :: "json \<Rightarrow> str \<Rightarrow> error + json option" where
  "py_get (JObject item) k = Inr (map_of item k)"
| "py_get _ k = Inl AttributeError"

definition get_code :: "json \<Rightarrow> error + key" where
  "get_code c = (case py_get c (py ''code'') of Inl e \<Rightarrow> Inl e | Inr v \<Rightarrow> hash_key v)"

text \<open>
  \<open>for c in file_data\<close>: a list yields its elements, a dict its keys, a string its
  characters; \<open>None\<close> (no data), \<open>null\<close>, a boolean and a number are not iterable.
\<close>

fun py_iter :: "json option \<Rightarrow> error + json list" where
  "py_iter None = Inl TypeError"
| "py_iter (Some (JArray xs)) = Inr xs"
| "py_iter (Some (JObject a)) = Inr (map (\<lambda>kv. JString (fst kv)) a)"
| "py_iter (Some (JString s)) = Inr (map (\<lambda>ch. JString [ch]) s)"
| "py_iter (Some _) = Inl TypeError"

text \<open>The truth value of \<open>if x:\<close>.\<close>

fun py_bool :: "json option \<Rightarrow> bool" where
  "py_bool None = False"
| "py_bool (Some JNull) = False"
| "py_bool (Some (JBool b)) = b"
| "py_bool (Some (JInt i)) = (i \<noteq> 0)"
| "py_bool (Some (JString s)) = (s \<noteq> [])"
| "py_bool (Some (JArray xs)) = (xs \<noteq> [])"
| "py_bool (Some (JObject a)) = (a \<noteq> [])"

subsection \<open>Command line, messages, the file system\<close>

text \<open>
  The parsed command line (lines 123-149); \<open>-v\<close> is counted, so \<open>verbose\<close> is a
  natural number.
\<close>

record args =
  fix_formatting :: bool
  verbose :: nat
  hide_completed :: bool
  base_path :: str
  pack_path :: str

record locale_rec =
  name :: str
  locale_base_path :: str

text \<open>
  A field mapping \<open>code \<rightarrow> (field \<rightarrow> value)\<close> is a dict of dicts, kept as association
  lists in insertion order. \<open>d[k] = v\<close> is \<open>AList.update\<close> (overwrite in place, or append),
  \<open>d.pop(k)\<close> is \<open>AList.delete\<close>, \<open>k in d\<close> is \<open>k \<in> fst ` set d\<close>.
\<close>

type_synonym fields = "(str \<times> json) list"
type_synonym fmap = "(key \<times> fields) list"

text \<open>
  Every text the program writes to standard output, by the statement that writes it,
  with the values it formats into the text.
\<close>

datatype message =
    NotValidJson str
  | InvalidContent str
  | FixingFormatting str
  | CannotWrite str
  | PrintedException
  | LoadingIndex str
  | ExtraFields str "str list"
  | DuplicateCode key str
  | ExtraCodes str "key list"
  | CouldNotLoad str
  | AlreadyHasEntry key
  | JsonWithoutExtra str
  | NoTranslatableStrings str str
  | UnexpectedEntry str key
  | Ignoring key str json
  | MissingJson str
  | UntranslatedJson str
  | ShortStats str nat nat
  | FileList "str list"
  | SkippingValidation
  | Summary nat nat

text \<open>\<open>verbose_print\<close> (lines 393-395), on the text written so far.\<close>

definition verbose_print :: "args \<Rightarrow> message \<Rightarrow> nat \<Rightarrow> message list \<Rightarrow> message list" where
  "verbose_print a text minimum_verbosity written =
     (if verbose a \<ge> minimum_verbosity then written @ [text] else written)"

text \<open>
  The bytes of a file either decode as UTF-8 or do not. \<open>files\<close> maps the path of each
  readable regular file to its bytes; \<open>writable\<close> tells whether a path can be opened
  for writing. The two counters are the globals of lines 13-14.
\<close>

datatype file_bytes = Utf8 str | NotUtf8

record world =
  formatting_errors :: nat
  validation_errors :: nat
  out :: "message list"
  files :: "str \<Rightarrow> file_bytes option"
  writable :: "str \<Rightarrow> bool"

definition say :: "args \<Rightarrow> message \<Rightarrow> nat \<Rightarrow> world \<Rightarrow> world" where
  "say a text minimum_verbosity w = w\<lparr>out := verbose_print a text minimum_verbosity (out w)\<rparr>"

text \<open>\<open>os.path.join\<close> on POSIX paths, and \<open>str.removesuffix\<close>.\<close>

definition path_join :: "str \<Rightarrow> str \<Rightarrow> str" where
  "path_join p q =
     (if take 1 q = [47] then q
      else if p = [] \<or> last p = 47 then p @ q
      else p @ [47] @ q)"

definition removesuffix :: "str \<Rightarrow> str \<Rightarrow> str" where
  "removesuffix s suffix =
     (if suffix \<noteq> [] \<and> length suffix \<le> length s \<and> drop (length s - length suffix) s = suffix
      then take (length s - length suffix) s else s)"

text \<open>\<open>check_file_access\<close> (lines 24-30).\<close>

definition check_file_access :: "world \<Rightarrow> str \<Rightarrow> bool" where
  "check_file_access w path = (files w path \<noteq> None)"

subsection \<open>\<open>load_json_file\<close> (lines 43-76)\<close>

text \<open>
  \<open>open\<close> raises \<open>OSError\<close> for a path that cannot be read. Bytes that are not UTF-8
  and text that is not JSON raise \<open>ValueError\<close>; the handler counts a validation
  error and then reads \<open>e.message\<close>, an attribute that exceptions do not have in
  Python 3, so the handler itself raises \<open>AttributeError\<close>. Line 66 adds \<open>0\<close> to
  \<open>formatting_errors\<close>. Encoding the text to write raises \<open>UnicodeEncodeError\<close> when
  it holds a surrogate code point.
\<close>

definition has_surrogate :: "str \<Rightarrow> bool" where
  "has_surrogate s = list_ex (\<lambda>c. 55296 \<le> c \<and> c \<le> 57343) s"

definition decode_file :: "file_bytes \<Rightarrow> (str \<times> json) option" where
  "decode_file bin_data =
     (case bin_data of
        NotUtf8 \<Rightarrow> None
      | Utf8 raw_data \<Rightarrow> map_option (Pair raw_data) (json_loads raw_data))"

definition load_json_file :: "args \<Rightarrow> str \<Rightarrow> world \<Rightarrow> error + (json option \<times> world)" where
  "load_json_file a path w =
     (case files w path of
        None \<Rightarrow> Inl OSError
      | Some bin_data \<Rightarrow>
          (case decode_file bin_data of
             None \<Rightarrow> Inl AttributeError
           | Some (raw_data, json_data) \<Rightarrow>
               (let formatted_raw_data = format_json json_data in
                if contains (py ''<sup>'') formatted_raw_data then
                  Inr (None, (say a (InvalidContent path) 0 w)
                               \<lparr>validation_errors := validation_errors w + 1\<rparr>)
                else if formatted_raw_data \<noteq> raw_data then
                  (let w1 = w\<lparr>formatting_errors := formatting_errors w + 0\<rparr> in
                   if fix_formatting a \<and> length formatted_raw_data > 0 then
                     (let w2 = say a (FixingFormatting path) 0 w1 in
                      if writable w2 path then
                        (if has_surrogate formatted_raw_data then Inl UnicodeEncodeError
                         else Inr (Some json_data,
                                   w2\<lparr>files := (files w2)(path \<mapsto> Utf8 formatted_raw_data)\<rparr>))
                      else Inr (Some json_data,
                                say a PrintedException 0 (say a (CannotWrite path) 0 w2)))
                   else Inr (Some json_data, w1))
                else Inr (Some json_data, w))))"

section \<open>The translatable-field extractor\<close>

subsection \<open>\<open>get_translatable_strings\<close> (lines 190-202)\<close>

text \<open>
  \<open>translatable_fields\<close> is a Python set; the order in which the loop of line 198
  visits it is not fixed by the language. The order of the source text is taken.
\<close>

definition translatable_fields :: "str list" where
  "translatable_fields =
     [py ''flavor'', py ''name'', py ''subname'', py ''customization_text'',
      py ''customization_change'', py ''text'', py ''traits'', py ''back_name'',
      py ''back_flavor'', py ''back_text'', py ''back_traits'', py ''slot'']"

definition get_translatable_strings ::
  "args \<Rightarrow> (str \<times> json) list \<Rightarrow> str \<Rightarrow> bool \<Rightarrow> message list \<Rightarrow> (fields \<times> bool) \<times> message list" where
  "get_translatable_strings a item file_path warn_if_extra written =
     (let extra = remdups (filter (\<lambda>k. k \<notin> set translatable_fields \<and> k \<noteq> py ''code'')
                             (map fst item));
          written' =
            (if warn_if_extra \<and> length extra \<noteq> 0
             then verbose_print a (ExtraFields file_path extra) 0 written else written);
          result =
            foldl (\<lambda>result field.
                     case map_of item field of
                       Some v \<Rightarrow> AList.update field v result
                     | None \<Rightarrow> result)
                  [] translatable_fields
      in ((result, length extra \<noteq> 0), written'))"

subsection \<open>\<open>check_duplicate_codes\<close> (lines 204-211)\<close>

fun check_duplicate_codes_loop ::
  "args \<Rightarrow> str \<Rightarrow> json list \<Rightarrow> key set \<Rightarrow> message list \<Rightarrow> error + message list" where
  "check_duplicate_codes_loop a file_path [] codes written = Inr written"
| "check_duplicate_codes_loop a file_path (c # cs) codes written =
     (case get_code c of
        Inl e \<Rightarrow> Inl e
      | Inr code \<Rightarrow>
          if code \<in> codes then
            check_duplicate_codes_loop a file_path cs codes
              (verbose_print a (DuplicateCode code file_path) 0 written)
          else check_duplicate_codes_loop a file_path cs (insert code codes) written)"

definition check_duplicate_codes ::
  "args \<Rightarrow> json option \<Rightarrow> str \<Rightarrow> message list \<Rightarrow> error + message list" where
  "check_duplicate_codes a file_data file_path written =
     (case py_iter file_data of
        Inl e \<Rightarrow> Inl e
      | Inr cs \<Rightarrow> check_duplicate_codes_loop a file_path cs {} written)"

subsection \<open>\<open>flatten_i18n_dict\<close> (lines 266-269)\<close>

text \<open>
  The function writes \<open>value["code"] = key\<close> into every inner dict of its argument and
  returns the list of these dicts. The inner dicts are the caller's own objects, so
  the caller's mapping holds the added entries afterwards: \<open>flatten_effect\<close> is the
  mapping after the call, \<open>flatten_i18n_dict\<close> the list returned.
\<close>

definition flatten_effect :: "fmap \<Rightarrow> fmap" where
  "flatten_effect i18n_dict =
     map (\<lambda>kv. (fst kv, AList.update (py ''code'') (json_of_key (fst kv)) (snd kv))) i18n_dict"

definition flatten_i18n_dict :: "fmap \<Rightarrow> json" where
  "flatten_i18n_dict i18n_dict = JArray (map (\<lambda>kv. JObject (snd kv)) (flatten_effect i18n_dict))"

subsection \<open>\<open>load_translatable_dict\<close> (lines 218-249)\<close>

text \<open>
  The loop of lines 230-244. The state is \<open>translatables\<close>, \<open>total\<close>, \<open>found_extra\<close>
  and the text written.
\<close>

fun load_loop ::
  "args \<Rightarrow> str \<Rightarrow> bool \<Rightarrow> json list \<Rightarrow> fmap \<times> nat \<times> bool \<times> message list \<Rightarrow>
   error + (fmap \<times> nat \<times> bool \<times> message list)" where
  "load_loop a file_path warn_if_extra [] st = Inr st"
| "load_loop a file_path warn_if_extra (c # cs) (translatables, tot, found_extra, written) =
     (case get_code c of
        Inl e \<Rightarrow> Inl e
      | Inr code \<Rightarrow>
          if code \<in> fst ` set translatables then
            load_loop a file_path warn_if_extra cs
              (translatables, tot, found_extra, verbose_print a (AlreadyHasEntry code) 0 written)
          else
            (case c of
               JObject item \<Rightarrow>
                 (case get_translatable_strings a item file_path warn_if_extra written of
                    ((translatable, extra), written') \<Rightarrow>
                      load_loop a file_path warn_if_extra cs
                        (if length translatable > 0
                         then AList.update code translatable translatables else translatables,
                         tot + length translatable,
                         found_extra \<or> extra,
                         written'))
             | _ \<Rightarrow> Inl AttributeError))"

definition load_translatable_dict ::
  "args \<Rightarrow> str \<Rightarrow> bool \<Rightarrow> world \<Rightarrow> error + (fmap \<times> nat \<times> world)" where
  "load_translatable_dict a file_path warn_if_extra w =
     (if check_file_access w file_path then
        (case load_json_file a file_path w of
           Inl e \<Rightarrow> Inl e
         | Inr (file_data, w1) \<Rightarrow>
             (case check_duplicate_codes a file_data file_path (out w1) of
                Inl e \<Rightarrow> Inl e
              | Inr written \<Rightarrow>
                  (case py_iter file_data of
                     Inl e \<Rightarrow> Inl e
                   | Inr cs \<Rightarrow>
                       (case load_loop a file_path warn_if_extra cs ([], 0, False, written) of
                          Inl e \<Rightarrow> Inl e
                        | Inr (translatables, tot, found_extra, written') \<Rightarrow>
                            if found_extra \<and> warn_if_extra then
                              Inr (flatten_effect translatables, tot,
                                   w1\<lparr>out := verbose_print a
                                      (JsonWithoutExtra (format_json (flatten_i18n_dict translatables)))
                                      1 written'\<rparr>)
                            else Inr (translatables, tot, w1\<lparr>out := written'\<rparr>)))))
      else Inr ([], 0, say a (CouldNotLoad file_path) 1 w))"

section \<open>The translation comparator\<close>

subsection \<open>Statistics (lines 167-186)\<close>

record stats =
  stats_locale :: locale_rec
  en_file_name :: str
  total :: nat
  translated :: nat
  untranslated :: fmap
  missing :: fmap

text \<open>The number of (code, field) pairs of a field mapping.\<close>

definition pairs :: "fmap \<Rightarrow> nat" where
  "pairs m = sum_list (map (\<lambda>cf. length (snd cf)) m)"

definition resolvePath :: "locale_rec \<Rightarrow> str \<Rightarrow> str" where
  "resolvePath l enPath = path_join (path_join (locale_base_path l) (name l)) enPath"

definition print_short :: "stats \<Rightarrow> args \<Rightarrow> message list \<Rightarrow> message list" where
  "print_short self a written =
     (if translated self = total self \<and> hide_completed a then written
      else verbose_print a
             (ShortStats (resolvePath (stats_locale self) (en_file_name self)) (translated self) (total self))
             0 written)"

subsection \<open>\<open>should_ignore\<close> (lines 251-264)\<close>

definition should_ignore :: "fmap option \<Rightarrow> key \<Rightarrow> str \<Rightarrow> json \<Rightarrow> bool" where
  "should_ignore ignore_dict code field val =
     (case ignore_dict of
        None \<Rightarrow> False
      | Some d \<Rightarrow>
          (case map_of d code of
             None \<Rightarrow> False
           | Some fs \<Rightarrow>
               (case map_of fs field of
                  None \<Rightarrow> False
                | Some v \<Rightarrow> py_eq v val)))"

subsection \<open>The classification loop (lines 290-313)\<close>

text \<open>
  The inner loop over \<open>en_strings.items()\<close> (lines 297-307): the running
  \<open>stats.translated\<close>, the \<open>untranslated\<close> dict of the current code, the text written.
\<close>

fun classify_fields ::
  "args \<Rightarrow> fmap option \<Rightarrow> key \<Rightarrow> fields \<Rightarrow> fields \<Rightarrow> nat \<times> fields \<times> message list \<Rightarrow>
   nat \<times> fields \<times> message list" where
  "classify_fields a ignore_dict code i18n_strings [] acc = acc"
| "classify_fields a ignore_dict code i18n_strings (fv # en_strings) (tr, untr, written) =
     classify_fields a ignore_dict code i18n_strings en_strings
       (case map_of i18n_strings (fst fv) of
          Some loc \<Rightarrow>
            if should_ignore ignore_dict code (fst fv) loc then
              (tr + 1, untr, verbose_print a (Ignoring code (fst fv) loc) 2 written)
            else if py_eq (snd fv) loc \<and> snd fv \<noteq> JString [] then
              (tr, AList.update (fst fv) (snd fv) untr, written)
            else (tr + 1, untr, written)
        | None \<Rightarrow> (tr, AList.update (fst fv) (snd fv) untr, written))"

text \<open>
  The outer loop over \<open>i18n_dict.items()\<close> (lines 290-313). The state is the working
  copy of \<open>en_dict\<close>, \<open>stats.translated\<close>, \<open>stats.untranslated\<close> and the text written.
\<close>

fun classify ::
  "args \<Rightarrow> locale_rec \<Rightarrow> fmap option \<Rightarrow> fmap \<Rightarrow> fmap \<times> nat \<times> fmap \<times> message list \<Rightarrow>
   fmap \<times> nat \<times> fmap \<times> message list" where
  "classify a l ignore_dict [] st = st"
| "classify a l ignore_dict (ci # i18n_dict) (en_dict, tr, untr, written) =
     classify a l ignore_dict i18n_dict
       (case map_of en_dict (fst ci) of
          None \<Rightarrow> (en_dict, tr, untr, verbose_print a (UnexpectedEntry (name l) (fst ci)) 0 written)
        | Some en_strings \<Rightarrow>
            (case classify_fields a ignore_dict (fst ci) (snd ci) en_strings (tr, [], written) of
               (tr', u, written') \<Rightarrow>
                 (AList.delete (fst ci) en_dict, tr',
                  if length u > 0 then AList.update (fst ci) u untr else untr,
                  written')))"

text \<open>
  Lines 279-281 and 290-315 on the three mappings: the statistics as they stand when
  \<open>stats.missing\<close> has been assigned, and the text written by the loop.
\<close>

definition compare_dicts ::
  "args \<Rightarrow> locale_rec \<Rightarrow> str \<Rightarrow> fmap \<Rightarrow> fmap \<Rightarrow> nat \<Rightarrow> fmap \<Rightarrow> message list \<Rightarrow>
   stats \<times> message list" where
  "compare_dicts a l en_file_path ignore_dict en_dict tot i18n_dict written =
     (case classify a l (Some ignore_dict) i18n_dict (en_dict, 0, [], written) of
        (en', tr, untr, written') \<Rightarrow>
          (\<lparr>stats_locale = l, en_file_name = en_file_path, total = tot, translated = tr,
            untranslated = untr, missing = en'\<rparr>, written'))"

subsection \<open>\<open>check_extra_i18n_codes\<close> (lines 213-216)\<close>

definition check_extra_i18n_codes ::
  "args \<Rightarrow> fmap \<Rightarrow> fmap \<Rightarrow> str \<Rightarrow> message list \<Rightarrow> message list" where
  "check_extra_i18n_codes a i18n_dict en_dict file_path written =
     (let extra_i18n = filter (\<lambda>k. k \<notin> fst ` set en_dict) (map fst i18n_dict) in
      if length extra_i18n \<noteq> 0 then verbose_print a (ExtraCodes file_path extra_i18n) 0 written
      else written)"

subsection \<open>\<open>compare_translations\<close> (lines 271-322)\<close>

text \<open>
  Lines 316-320 call \<open>flatten_i18n_dict\<close> on \<open>stats.missing\<close> and on
  \<open>stats.untranslated\<close> when they are not empty, whatever the verbosity: the argument
  of \<open>verbose_print\<close> is evaluated before the call. The statistics returned hold the
  mappings as \<open>flatten_i18n_dict\<close> left them.
\<close>

definition report_flattened ::
  "args \<Rightarrow> (str \<Rightarrow> message) \<Rightarrow> fmap \<Rightarrow> message list \<Rightarrow> fmap \<times> message list" where
  "report_flattened a heading m written =
     (if length m \<noteq> 0
      then (flatten_effect m, verbose_print a (heading (format_json (flatten_i18n_dict m))) 1 written)
      else (m, written))"

definition compare_translations ::
  "args \<Rightarrow> locale_rec \<Rightarrow> str \<Rightarrow> world \<Rightarrow> error + (stats \<times> world)" where
  "compare_translations a l en_file_path w =
     (case load_translatable_dict a en_file_path False w of
        Inl e \<Rightarrow> Inl e
      | Inr (en_dict, tot, w1) \<Rightarrow>
          (let w2 = (if tot = 0 then say a (NoTranslatableStrings (name l) en_file_path) 1 w1
                     else w1);
               i18n_file_path = resolvePath l en_file_path
           in case load_translatable_dict a i18n_file_path True w2 of
                Inl e \<Rightarrow> Inl e
              | Inr (i18n_dict, tot_i18n, w3) \<Rightarrow>
                  (let w4 = w3\<lparr>out := check_extra_i18n_codes a i18n_dict en_dict i18n_file_path (out w3)\<rparr>;
                       ignore_file_path = removesuffix i18n_file_path (py ''.json'') @ py ''.ignore''
                   in case load_translatable_dict a ignore_file_path False w4 of
                        Inl e \<Rightarrow> Inl e
                      | Inr (ignore_dict, tot_ignore, w5) \<Rightarrow>
                          (case compare_dicts a l en_file_path ignore_dict en_dict tot i18n_dict (out w5) of
                             (st, written) \<Rightarrow>
                               (case report_flattened a MissingJson (missing st) written of
                                  (missing', written1) \<Rightarrow>
                                    (case report_flattened a UntranslatedJson (untranslated st) written1 of
                                       (untranslated', written2) \<Rightarrow>
                                         Inr (st\<lparr>missing := missing', untranslated := untranslated'\<rparr>,
                                              w5\<lparr>out := written2\<rparr>)))))))"

section \<open>The program\<close>

subsection \<open>\<open>load_cycles\<close> and \<open>load_packs\<close> (lines 78-100)\<close>

definition load_cycles :: "args \<Rightarrow> world \<Rightarrow> error + (json option \<times> world)" where
  "load_cycles a w =
     load_json_file a (path_join (base_path a) (py ''cycles.json''))
       (say a (LoadingIndex (py ''cycle'')) 1 w)"

text \<open>
  The loop of lines 90-98 reads \<open>p["cycle_code"]\<close> and \<open>p["code"]\<close> and joins a path
  from them: \<open>TypeError\<close> for a \<open>p\<close> that is not a dict or a cycle code that is not a
  string, \<open>KeyError\<close> for a missing key. What the loop stores into \<open>p\<close> is not read
  again by the program and is left out.
\<close>

fun load_packs_loop :: "json list \<Rightarrow> error + unit" where
  "load_packs_loop [] = Inr ()"
| "load_packs_loop (p # ps) =
     (case p of
        JObject item \<Rightarrow>
          (case map_of item (py ''cycle_code'') of
             None \<Rightarrow> Inl KeyError
           | Some cycle_code \<Rightarrow>
               (case map_of item (py ''code'') of
                  None \<Rightarrow> Inl KeyError
                | Some code \<Rightarrow>
                    (case cycle_code of
                       JString c \<Rightarrow> load_packs_loop ps
                     | _ \<Rightarrow> Inl TypeError)))
      | _ \<Rightarrow> Inl TypeError)"

definition load_packs :: "args \<Rightarrow> json option \<Rightarrow> world \<Rightarrow> error + (json option \<times> world)" where
  "load_packs a cycles_data w =
     (case load_json_file a (path_join (base_path a) (py ''packs.json''))
             (say a (LoadingIndex (py ''pack'')) 1 w) of
        Inl e \<Rightarrow> Inl e
      | Inr (packs_data, w1) \<Rightarrow>
          (case py_iter packs_data of
             Inl e \<Rightarrow> Inl e
           | Inr ps \<Rightarrow>
               (case load_packs_loop ps of
                  Inl e \<Rightarrow> Inl e
                | Inr u \<Rightarrow> Inr (packs_data, w1))))"

subsection \<open>\<open>check_translations\<close> and \<open>main\<close> (lines 356-423)\<close>

text \<open>
  Which locale is compared on which file is decided by directory listings and path
  arithmetic (lines 324-388), which belong to the environment: \<open>jobs\<close> is the sequence
  of (locale, source file) pairs on which \<open>check_translations\<close> calls
  \<open>compare_translations\<close>, in order. The messages of the listing itself are left out.
\<close>

fun check_translations :: "args \<Rightarrow> (locale_rec \<times> str) list \<Rightarrow> world \<Rightarrow> error + world" where
  "check_translations a [] w = Inr w"
| "check_translations a (job # jobs) w =
     (case compare_translations a (fst job) (snd job) w of
        Inl e \<Rightarrow> Inl e
      | Inr (st, w1) \<Rightarrow> check_translations a jobs (w1\<lparr>out := print_short st a (out w1)\<rparr>))"

text \<open>
  \<open>main\<close> ends in \<open>sys.exit\<close> with the status computed at lines 420-423; an exception
  that nothing catches ends the process with status 1.
\<close>

definition main ::
  "args \<Rightarrow> str list \<Rightarrow> (locale_rec \<times> str) list \<Rightarrow> world \<Rightarrow> error + (nat \<times> world)" where
  "main a i18n_files jobs w0 =
     (let w = w0\<lparr>formatting_errors := 0, validation_errors := 0\<rparr> in
      case load_cycles a w of
        Inl e \<Rightarrow> Inl e
      | Inr (cycles, w1) \<Rightarrow>
          (case load_packs a cycles w1 of
             Inl e \<Rightarrow> Inl e
           | Inr (packs, w2) \<Rightarrow>
               (case (if py_bool cycles \<and> py_bool packs then
                        (if length i18n_files = 0 then check_translations a jobs w2
                         else check_translations a jobs (say a (FileList i18n_files) 0 w2))
                      else Inr (say a SkippingValidation 0 w2)) of
                  Inl e \<Rightarrow> Inl e
                | Inr w3 \<Rightarrow>
                    (let w4 = w3\<lparr>out := out w3 @
                                 [Summary (formatting_errors w3) (validation_errors w3)]\<rparr>
                     in if formatting_errors w3 = 0 \<and> validation_errors w3 = 0
                        then Inr (0, w4) else Inr (1, w4)))))"

definition exit_status :: "error + (nat \<times> world) \<Rightarrow> nat" where
  "exit_status r = (case r of Inl e \<Rightarrow> 1 | Inr cw \<Rightarrow> fst cw)"

section \<open>Notions used to state the properties\<close>

text \<open>
  Section 4.3 of the specification: an ignore rule matches when \<open>ignore[code][field]\<close>
  equals the localized value; a source field is untranslated when the field is absent
  from the localized record, or when no ignore rule matches and the localized value
  equals a non-empty source value; otherwise it is translated.
\<close>

definition spec_ignored :: "fmap \<Rightarrow> key \<Rightarrow> str \<Rightarrow> json \<Rightarrow> bool" where
  "spec_ignored ign code field loc_value =
     (case map_of ign code of
        None \<Rightarrow> False
      | Some fs \<Rightarrow> (case map_of fs field of None \<Rightarrow> False | Some v \<Rightarrow> py_eq v loc_value))"

definition spec_untranslated :: "fmap \<Rightarrow> key \<Rightarrow> fields \<Rightarrow> str \<Rightarrow> json \<Rightarrow> bool" where
  "spec_untranslated ign code loc field source_value =
     (case map_of loc field of
        None \<Rightarrow> True
      | Some loc_value \<Rightarrow>
          if spec_ignored ign code field loc_value then False
          else if py_eq source_value loc_value \<and> source_value \<noteq> JString [] then True
          else False)"

definition untr_fields :: "fmap \<Rightarrow> key \<Rightarrow> fields \<Rightarrow> fields \<Rightarrow> fields" where
  "untr_fields ign code loc es = filter (\<lambda>fv. spec_untranslated ign code loc (fst fv) (snd fv)) es"

definition tr_count :: "fmap \<Rightarrow> key \<Rightarrow> fields \<Rightarrow> fields \<Rightarrow> nat" where
  "tr_count ign code loc es =
     length (filter (\<lambda>fv. \<not> spec_untranslated ign code loc (fst fv) (snd fv)) es)"

definition tr_entry :: "fmap \<Rightarrow> fmap \<Rightarrow> key \<times> fields \<Rightarrow> nat" where
  "tr_entry ign en ci =
     (case map_of en (fst ci) of None \<Rightarrow> 0 | Some es \<Rightarrow> tr_count ign (fst ci) (snd ci) es)"

definition untr_entry :: "fmap \<Rightarrow> fmap \<Rightarrow> key \<times> fields \<Rightarrow> fmap" where
  "untr_entry ign en ci =
     (case map_of en (fst ci) of
        None \<Rightarrow> []
      | Some es \<Rightarrow>
          (if untr_fields ign (fst ci) (snd ci) es = [] then []
           else [(fst ci, untr_fields ign (fst ci) (snd ci) es)]))"

text \<open>A dict of dicts: no key occurs twice, in the mapping or in an inner dict.\<close>

definition dict_of_dicts :: "fmap \<Rightarrow> bool" where
  "dict_of_dicts m = (distinct (map fst m) \<and> list_all (\<lambda>cf. distinct (map fst (snd cf))) m)"

definition lookup2 :: "fmap \<Rightarrow> key \<Rightarrow> str \<Rightarrow> json option" where
  "lookup2 m code field = (case map_of m code of None \<Rightarrow> None | Some fs \<Rightarrow> map_of fs field)"

definition decoded_fmap :: "fmap \<Rightarrow> bool" where
  "decoded_fmap m = list_all (\<lambda>cf. list_all (\<lambda>fv. decoded (snd fv)) (snd cf)) m"

text \<open>
  A field that a localized record repeats unchanged counts as translated only when
  its value is the empty string or an ignore rule holds that value.
\<close>

definition counts_when_same :: "fmap \<Rightarrow> key \<Rightarrow> str \<times> json \<Rightarrow> bool" where
  "counts_when_same ign code fv = (snd fv = JString [] \<or> spec_ignored ign code (fst fv) (snd fv))"

definition same_untranslated :: "fmap \<Rightarrow> key \<times> fields \<Rightarrow> fmap" where
  "same_untranslated ign cf =
     (if filter (\<lambda>fv. \<not> counts_when_same ign (fst cf) fv) (snd cf) = [] then []
      else [(fst cf, filter (\<lambda>fv. \<not> counts_when_same ign (fst cf) fv) (snd cf))])"

definition same_translated :: "fmap \<Rightarrow> key \<times> fields \<Rightarrow> nat" where
  "same_translated ign cf = length (filter (counts_when_same ign (fst cf)) (snd cf))"

subsection \<open>Example data\<close>

definition ex_args :: args where
  "ex_args = \<lparr>fix_formatting = False, verbose = 0, hide_completed = False,
              base_path = py ''.'', pack_path = py ''./pack''\<rparr>"

definition ex_locale :: locale_rec where
  "ex_locale = \<lparr>name = py ''fr'', locale_base_path = py ''./translations''\<rparr>"

definition ex_path :: str where
  "ex_path = py ''pack/core/core.json''"

definition ex_source :: fmap where
  "ex_source =
     [(KStr (py ''A1''),
       [(py ''name'', JString (py ''Noise'')), (py ''text'', JString (py ''Draw 1'')),
        (py ''flavor'', JString [])])]"

definition ex_localized :: fmap where
  "ex_localized =
     [(KStr (py ''A1''),
       [(py ''name'', JString (py ''Bruit'')), (py ''text'', JString (py ''Draw 1'')),
        (py ''flavor'', JString [])]),
      (KStr (py ''ZZ''), [(py ''name'', JString (py ''Extra''))])]"

definition ex_ability :: fmap where
  "ex_ability = [(KStr (py ''01001''), [(py ''text'', JString (py ''Ability text''))])]"

definition translatable_of :: "(str \<times> json) list \<Rightarrow> fields" where
  "translatable_of item =
     foldl (\<lambda>result field.
              case map_of item field of
                Some v \<Rightarrow> AList.update field v result
              | None \<Rightarrow> result)
           [] translatable_fields"

definition loaded_ok :: "fmap \<Rightarrow> bool" where
  "loaded_ok m =
     (dict_of_dicts m \<and>
      list_all (\<lambda>cf. snd cf \<noteq> [] \<and> list_all (\<lambda>fv. fst fv \<in> set translatable_fields) (snd cf)) m)"

definition whitelisted :: "fmap \<Rightarrow> bool" where
  "whitelisted m = list_all (\<lambda>cf. list_all (\<lambda>fv. fst fv \<in> set translatable_fields) (snd cf)) m"

definition drop_code :: "fmap \<Rightarrow> fmap" where
  "drop_code m = map (\<lambda>cf. (fst cf, filter (\<lambda>fv. fst fv \<noteq> py ''code'') (snd cf))) m"

definition field_pairs :: "fmap \<Rightarrow> nat" where
  "field_pairs m = pairs (drop_code m)"

definition record_code :: "json \<Rightarrow> key" where
  "record_code r = (case get_code r of Inr c \<Rightarrow> c | Inl e \<Rightarrow> KNone)"

definition record_fields :: "json \<Rightarrow> fields" where
  "record_fields r = (case r of JObject item \<Rightarrow> translatable_of item | _ \<Rightarrow> [])"

definition full_record :: "json \<Rightarrow> bool" where
  "full_record r =
     (case r of
        JObject item \<Rightarrow>
          (case get_code r of Inr c \<Rightarrow> translatable_of item \<noteq> [] | Inl e \<Rightarrow> False)
      | _ \<Rightarrow> False)"

fun first_records :: "json list \<Rightarrow> key set \<Rightarrow> json list" where
  "first_records [] seen = []"
| "first_records (r # rs) seen =
     (if record_code r \<in> seen then first_records rs seen
      else r # first_records rs (insert (record_code r) seen))"

fun later_codes :: "json list \<Rightarrow> key set \<Rightarrow> key list" where
  "later_codes [] seen = []"
| "later_codes (r # rs) seen =
     (if record_code r \<in> seen then record_code r # later_codes rs seen
      else later_codes rs (insert (record_code r) seen))"


definition ex_text :: str where
  "ex_text = py ''[{\"code\":\"02001\",\"name\":\"A\"},{\"code\":\"02001\",\"name\":\"B\"}]''"

definition ex_records :: "json list" where
  "ex_records =
     [JObject [(py ''code'', JString (py ''02001'')), (py ''name'', JString (py ''A''))],
      JObject [(py ''code'', JString (py ''02001'')), (py ''name'', JString (py ''B''))]]"

definition ex_files :: "str \<Rightarrow> file_bytes option" where
  "ex_files = [ex_path \<mapsto> Utf8 ex_text]"

definition ex_world :: world where
  "ex_world = \<lparr>formatting_errors = 0, validation_errors = 0, out = [], files = ex_files,
               writable = (\<lambda>p. True)\<rparr>"

definition ex_warnings :: "message list" where
  "ex_warnings = [DuplicateCode (KStr (py ''02001'')) ex_path, AlreadyHasEntry (KStr (py ''02001''))]"

definition ex_stats :: stats where
  "ex_stats =
     \<lparr>stats_locale = ex_locale, en_file_name = ex_path, total = 1, translated = 0,
      untranslated = [],
      missing = [(KStr (py ''02001''),
                  [(py ''name'', JString (py ''A'')), (py ''code'', JString (py ''02001''))])]\<rparr>"

definition ex_sup_text :: str where
  "ex_sup_text = py ''\"<sup>\"''"

definition ex_world_sup :: world where
  "ex_world_sup = ex_world\<lparr>files := (files ex_world)(resolvePath ex_locale ex_path \<mapsto> Utf8 ex_sup_text)\<rparr>"






definition ex_main_world :: "str \<Rightarrow> world" where
  "ex_main_world cycles_text =
     ex_world\<lparr>files := [py ''./cycles.json'' \<mapsto> Utf8 cycles_text,
                         py ''./packs.json'' \<mapsto> Utf8 (py ''[]'')]\<rparr>"

section \<open>Notions used to state the properties of the formatter\<close>

text \<open>
  The rendering of a value seen as a sequence of pieces: a token, which holds no line
  break, or a line break followed by the indentation of a nesting depth. \<open>toks\<close> follows
  \<open>dumps\<close> clause by clause; \<open>render\<close> writes the pieces with a given indentation.
\<close>

datatype piece = Tok str | Newline nat

fun render :: "(nat \<Rightarrow> str) \<Rightarrow> piece list \<Rightarrow> str" where
  "render ind [] = []"
| "render ind (Tok t # ps) = t @ render ind ps"
| "render ind (Newline d # ps) = 10 # ind d @ render ind ps"

fun sep_pieces :: "nat \<Rightarrow> piece list list \<Rightarrow> piece list" where
  "sep_pieces l [] = []"
| "sep_pieces l [ps] = ps"
| "sep_pieces l (ps # qs # rest) = ps @ [Tok [44], Newline l] @ sep_pieces l (qs # rest)"

fun toks :: "nat \<Rightarrow> json \<Rightarrow> piece list"
  and toks_list :: "nat \<Rightarrow> json list \<Rightarrow> piece list list"
  and toks_items :: "nat \<Rightarrow> (str \<times> json) list \<Rightarrow> (str \<times> piece list) list" where
  "toks l JNull = [Tok (py ''null'')]"
| "toks l (JBool b) = [Tok (if b then py ''true'' else py ''false'')]"
| "toks l (JInt i) = [Tok (int_repr i)]"
| "toks l (JString s) = [Tok (encode_string s)]"
| "toks l (JArray xs) =
     (if xs = [] then [Tok (py ''[]'')]
      else [Tok [91], Newline (l + 1)] @ sep_pieces (l + 1) (toks_list (l + 1) xs)
           @ [Newline l, Tok [93]])"
| "toks l (JObject a) =
     (if a = [] then [Tok (py ''{}'')]
      else [Tok [123], Newline (l + 1)]
           @ sep_pieces (l + 1)
               (map (\<lambda>kp. Tok (encode_string (fst kp) @ [58, 32]) # snd kp)
                  (sort_key fst (toks_items (l + 1) a)))
           @ [Newline l, Tok [125]])"
| "toks_list l [] = []"
| "toks_list l (x # xs) = toks l x # toks_list l xs"
| "toks_items l [] = []"
| "toks_items l (kv # a) = (fst kv, toks l (snd kv)) # toks_items l a"

text \<open>The indentation \<open>json.dumps\<close> writes at a depth: four spaces per level.\<close>

definition spaces :: "nat \<Rightarrow> str" where
  "spaces d = replicate (4 * d) 32"

text \<open>
  The substitution of one pass of the loop of \<open>format_json\<close> applied to every line but
  the first, and the tokens it leaves alone: those that begin with no space.
\<close>

definition cont :: "nat \<Rightarrow> str \<Rightarrow> str" where
  "cont i s = join [10] (hd (split_lines s) # map (tab_line i) (tl (split_lines s)))"

definition tok_ok :: "str \<Rightarrow> bool" where
  "tok_ok t = (t \<noteq> [] \<and> hd t \<noteq> 32 \<and> 10 \<notin> set t)"

fun wf_pieces :: "piece list \<Rightarrow> bool" where
  "wf_pieces [] = True"
| "wf_pieces (Tok t # ps) = (tok_ok t \<and> wf_pieces ps)"
| "wf_pieces (Newline d # ps) = (case ps of Tok t # qs \<Rightarrow> wf_pieces ps | _ \<Rightarrow> False)"

fun starts_tok :: "piece list \<Rightarrow> bool" where
  "starts_tok (Tok t # ps) = True"
| "starts_tok _ = False"

text \<open>The characters a rendered value can begin with.\<close>

definition value_start :: "nat \<Rightarrow> bool" where
  "value_start c =
     (c = 34 \<or> c = 45 \<or> is_digit c \<or> c = 91 \<or> c = 123 \<or> c = 110 \<or> c = 116 \<or> c = 102)"

text \<open>What may follow a number in the text: anything but a digit.\<close>

definition ok_rest :: "str \<Rightarrow> bool" where
  "ok_rest rest = (case rest of [] \<Rightarrow> True | c # r \<Rightarrow> \<not> is_digit c)"

text \<open>
  The value with the items of every object in the order of their keys, which is the
  order \<open>sort_keys=True\<close> writes them in; and the number of nested calls the decoder
  needs to read a value back.
\<close>

fun canon :: "json \<Rightarrow> json"
  and canon_list :: "json list \<Rightarrow> json list"
  and canon_items :: "(str \<times> json) list \<Rightarrow> (str \<times> json) list" where
  "canon JNull = JNull"
| "canon (JBool b) = JBool b"
| "canon (JInt i) = JInt i"
| "canon (JString s) = JString s"
| "canon (JArray xs) = JArray (canon_list xs)"
| "canon (JObject a) = JObject (sort_key fst (canon_items a))"
| "canon_list [] = []"
| "canon_list (x # xs) = canon x # canon_list xs"
| "canon_items [] = []"
| "canon_items (kv # a) = (fst kv, canon (snd kv)) # canon_items a"

fun need :: "json \<Rightarrow> nat"
  and need_list :: "json list \<Rightarrow> nat"
  and need_items :: "(str \<times> json) list \<Rightarrow> nat" where
  "need JNull = 1"
| "need (JBool b) = 1"
| "need (JInt i) = 1"
| "need (JString s) = 1"
| "need (JArray xs) = 1 + need_list xs"
| "need (JObject a) = 1 + need_items a"
| "need_list [] = 0"
| "need_list (x # xs) = 1 + need x + need_list xs"
| "need_items [] = 0"
| "need_items (kv # a) = 1 + need (snd kv) + need_items a"

text \<open>
  The decoder reads the rendering of \<open>x\<close>, written with the indentation \<open>ind\<close>, back
  as \<open>canon x\<close> and stops right after it.
\<close>

definition reads_back :: "(nat \<Rightarrow> str) \<Rightarrow> json \<Rightarrow> bool" where
  "reads_back ind x =
     (\<forall>l n rest. need x \<le> n \<longrightarrow> ok_rest rest \<longrightarrow>
        scan_once n (render ind (toks l x) @ rest) = Some (canon x, rest))"

abbreviation item_pieces :: "nat \<Rightarrow> str \<times> json \<Rightarrow> piece list" where
  "item_pieces l kv \<equiv> Tok (encode_string (fst kv) @ [58, 32]) # toks l (snd kv)"

text \<open>
  A rendering that holds none of the seven patterns the \<open>replace\<close> calls of
  \<open>format_json\<close> (lines 34-37) rewrite, and the indentation the loop of lines 38-39
  leaves at a depth.
\<close>

definition safe_text :: "str \<Rightarrow> bool" where
  "safe_text s =
     (\<not> contains [8216] s \<and> \<not> contains [8217] s \<and> \<not> contains [8722] s \<and>
      \<not> contains [8211] s \<and> \<not> contains [92, 114, 92, 110] s \<and>
      \<not> contains [32, 92, 110] s \<and> \<not> contains [93, 91] s)"

definition tabs :: "nat \<Rightarrow> str" where
  "tabs d = foldl (\<lambda>t i. tab_line i t) (spaces d) [8, 7, 6, 5, 4, 3, 2, 1]"

text \<open>Values for the formatter: an object with unsorted keys, a curly quote, two spaces
  before a line feed.\<close>

definition ex_value :: json where
  "ex_value =
     JObject [(py ''name'', JString (py ''Noise'')),
              (py ''code'', JString (py ''A1'')),
              (py ''tags'', JArray [JInt 1, JInt (- 2), JNull, JBool True, JArray [], JObject []])]"

definition ex_quote :: json where
  "ex_quote = JString [8217]"


section \<open>Properties of the comparator\<close>

subsection \<open>Python equality is reflexive on decoded values\<close>

lemma decoded_list_iff: "decoded_list xs \<longleftrightarrow> (\<forall>x\<in>set xs. decoded x)"
  by (induction xs) auto

lemma decoded_items_iff: "decoded_items a \<longleftrightarrow> (\<forall>kv\<in>set a. decoded (snd kv))"
  by (induction a) auto

lemma py_eq_list_refl: "(\<forall>x\<in>set xs. py_eq x x) \<Longrightarrow> py_eq_list xs xs"
  by (induction xs) auto

lemma py_eq_items_sub:
  "(\<forall>kv\<in>set a. map_of b (fst kv) = Some (snd kv) \<and> py_eq (snd kv) (snd kv)) \<Longrightarrow> py_eq_items a b"
  by (induction a) auto

lemma py_eq_refl: "decoded x \<Longrightarrow> py_eq x x"
proof (induction x)
  case (JArray xs)
  then show ?case by (simp add: decoded_list_iff py_eq_list_refl)
next
  case (JObject a)
  have "py_eq_items a a"
  proof (rule py_eq_items_sub, rule ballI)
    fix kv assume kv: "kv \<in> set a"
    from JObject.prems have d: "distinct (map fst a)" and di: "decoded_items a" by simp_all
    from kv d have "map_of a (fst kv) = Some (snd kv)" by (metis map_of_is_SomeI prod.collapse)
    moreover from kv di have "decoded (snd kv)" by (simp add: decoded_items_iff)
    with JObject.IH kv have "py_eq (snd kv) (snd kv)" by (cases kv) (auto simp: snds.simps)
    ultimately show "map_of a (fst kv) = Some (snd kv) \<and> py_eq (snd kv) (snd kv)" by simp
  qed
  then show ?case by simp
qed simp_all

subsection \<open>The classification rule in the words of the specification\<close>

lemma should_ignore_spec: "should_ignore (Some ign) code f v = spec_ignored ign code f v"
  by (simp add: should_ignore_def spec_ignored_def)

lemma update_fresh: "k \<notin> fst ` set al \<Longrightarrow> AList.update k v al = al @ [(k, v)]"
  by (induction al) auto

lemma classify_fields_gen:
  "distinct (map fst u @ map fst es) \<Longrightarrow>
   \<exists>wr'. classify_fields a (Some ign) code loc es (tr, u, wr) =
     (tr + tr_count ign code loc es, u @ untr_fields ign code loc es, wr')"
proof (induction es arbitrary: tr u wr)
  case Nil
  then show ?case by (simp add: tr_count_def untr_fields_def)
next
  case (Cons fv es)
  have fresh: "fst fv \<notin> fst ` set u" using Cons.prems by auto
  have d1: "distinct (map fst u @ map fst es)" using Cons.prems by auto
  have d2: "distinct (map fst (u @ [fv]) @ map fst es)" using Cons.prems by auto
  show ?case
  proof (cases "spec_untranslated ign code loc (fst fv) (snd fv)")
    case True
    then have "classify_fields a (Some ign) code loc (fv # es) (tr, u, wr) =
        classify_fields a (Some ign) code loc es (tr, u @ [fv], wr)"
      using fresh by (auto simp: spec_untranslated_def should_ignore_spec update_fresh
          split: option.splits if_splits)
    moreover obtain wr' where
      "classify_fields a (Some ign) code loc es (tr, u @ [fv], wr) =
         (tr + tr_count ign code loc es, (u @ [fv]) @ untr_fields ign code loc es, wr')"
      using Cons.IH[OF d2] by blast
    ultimately show ?thesis using True by (simp add: tr_count_def untr_fields_def)
  next
    case False
    then have "\<exists>wr1. classify_fields a (Some ign) code loc (fv # es) (tr, u, wr) =
        classify_fields a (Some ign) code loc es (tr + 1, u, wr1)"
      by (auto simp: spec_untranslated_def should_ignore_spec split: option.splits if_splits)
    then obtain wr1 where s: "classify_fields a (Some ign) code loc (fv # es) (tr, u, wr) =
        classify_fields a (Some ign) code loc es (tr + 1, u, wr1)" by blast
    obtain wr' where
      "classify_fields a (Some ign) code loc es (tr + 1, u, wr1) =
         (tr + 1 + tr_count ign code loc es, u @ untr_fields ign code loc es, wr')"
      using Cons.IH[OF d1] by blast
    with s show ?thesis using False by (simp add: tr_count_def untr_fields_def)
  qed
qed

lemma tr_untr_length: "tr_count ign code loc es + length (untr_fields ign code loc es) = length es"
  unfolding tr_count_def untr_fields_def
  using sum_length_filter_compl[of "\<lambda>fv. spec_untranslated ign code loc (fst fv) (snd fv)" es]
  by simp

lemma delete_filter: "AList.delete k al = filter (\<lambda>cf. fst cf \<noteq> k) al"
  by (induction al) auto

lemma entries_delete:
  assumes "c \<notin> fst ` set rest"
  shows "map (tr_entry ign (AList.delete c en)) rest = map (tr_entry ign en) rest"
    and "map (untr_entry ign (AList.delete c en)) rest = map (untr_entry ign en) rest"
  using assms by (induction rest) (auto simp: tr_entry_def untr_entry_def)

lemma untr_entry_keys:
  "map fst (untr_entry ign en ci) = [] \<or> map fst (untr_entry ign en ci) = [fst ci]"
  by (simp add: untr_entry_def split: option.splits)

lemma inner_distinct:
  "map_of (en::fmap) c = Some es \<Longrightarrow> list_all (\<lambda>cf. distinct (map fst (snd cf))) en \<Longrightarrow>
   distinct (map fst es)"
  apply (drule map_of_SomeD)
  apply (simp add: list_all_iff)
  apply (drule bspec, assumption)
  apply simp
  done

lemma classify_gen:
  assumes "distinct (map fst untr @ map fst i18n)"
    and "list_all (\<lambda>cf. distinct (map fst (snd cf))) en"
  shows "\<exists>wr'. classify a l (Some ign) i18n (en, tr, untr, wr) =
     (filter (\<lambda>cf. fst cf \<notin> fst ` set i18n) en,
      tr + sum_list (map (tr_entry ign en) i18n),
      untr @ concat (map (untr_entry ign en) i18n),
      wr')"
  using assms
proof (induction i18n arbitrary: en tr untr wr)
  case Nil
  then show ?case by simp
next
  case (Cons ci rest)
  have c_rest: "fst ci \<notin> fst ` set rest" using Cons.prems(1) by auto
  have c_untr: "fst ci \<notin> fst ` set untr" using Cons.prems(1) by auto
  show ?case
  proof (cases "map_of en (fst ci)")
    case None
    have d: "distinct (map fst untr @ map fst rest)" using Cons.prems(1) by auto
    have nk: "fst ci \<notin> fst ` set en" using None by (simp add: map_of_eq_None_iff)
    have f: "filter (\<lambda>cf. fst cf \<notin> fst ` set (ci # rest)) en =
             filter (\<lambda>cf. fst cf \<notin> fst ` set rest) en"
    proof (rule filter_cong[OF refl])
      fix x assume "x \<in> set en"
      then have "fst x \<in> fst ` set en" by (rule imageI)
      then have "fst x \<noteq> fst ci" using nk by metis
      then show "(fst x \<notin> fst ` set (ci # rest)) = (fst x \<notin> fst ` set rest)" by simp
    qed
    obtain wr' where "classify a l (Some ign) rest
        (en, tr, untr, verbose_print a (UnexpectedEntry (name l) (fst ci)) 0 wr) =
       (filter (\<lambda>cf. fst cf \<notin> fst ` set rest) en, tr + sum_list (map (tr_entry ign en) rest),
        untr @ concat (map (untr_entry ign en) rest), wr')"
      using Cons.IH[OF d Cons.prems(2)] by blast
    moreover have "tr_entry ign en ci = 0" and "untr_entry ign en ci = []"
      using None by (simp_all add: tr_entry_def untr_entry_def)
    ultimately show ?thesis using None f by simp
  next
    case (Some es)
    have des: "distinct (map fst es)"
      using Some Cons.prems(2) by (rule inner_distinct)
    let ?u = "untr_fields ign (fst ci) (snd ci) es"
    obtain wr1 where cf: "classify_fields a (Some ign) (fst ci) (snd ci) es (tr, [], wr) =
              (tr + tr_count ign (fst ci) (snd ci) es, ?u, wr1)"
      using classify_fields_gen[of "[]" es a ign "fst ci" "snd ci" tr wr] des by auto
    have untr': "(if length ?u > 0 then AList.update (fst ci) ?u untr else untr) =
                 untr @ untr_entry ign en ci"
      using Some c_untr by (simp add: untr_entry_def update_fresh)
    have d: "distinct (map fst (untr @ untr_entry ign en ci) @ map fst rest)"
      using untr_entry_keys[of ign en ci] Cons.prems(1) by (elim disjE) simp_all
    have wf': "list_all (\<lambda>cf. distinct (map fst (snd cf))) (AList.delete (fst ci) en)"
      using Cons.prems(2) by (simp add: delete_filter list_all_iff)
    have f: "filter (\<lambda>cf. fst cf \<notin> fst ` set rest) (AList.delete (fst ci) en) =
             filter (\<lambda>cf. fst cf \<notin> fst ` set (ci # rest)) en"
      by (simp add: delete_filter conj_commute)
    have "classify a l (Some ign) (ci # rest) (en, tr, untr, wr) =
        classify a l (Some ign) rest
          (AList.delete (fst ci) en, tr + tr_count ign (fst ci) (snd ci) es,
           untr @ untr_entry ign en ci, wr1)"
      using Some cf untr' by simp
    moreover obtain wr' where "classify a l (Some ign) rest
          (AList.delete (fst ci) en, tr + tr_count ign (fst ci) (snd ci) es,
           untr @ untr_entry ign en ci, wr1) =
        (filter (\<lambda>cf. fst cf \<notin> fst ` set rest) (AList.delete (fst ci) en),
         tr + tr_count ign (fst ci) (snd ci) es +
           sum_list (map (tr_entry ign (AList.delete (fst ci) en)) rest),
         (untr @ untr_entry ign en ci) @
           concat (map (untr_entry ign (AList.delete (fst ci) en)) rest),
         wr')"
      using Cons.IH[OF d wf'] by blast
    moreover have "(filter (\<lambda>cf. fst cf \<notin> fst ` set rest) (AList.delete (fst ci) en),
         tr + tr_count ign (fst ci) (snd ci) es +
           sum_list (map (tr_entry ign (AList.delete (fst ci) en)) rest),
         (untr @ untr_entry ign en ci) @
           concat (map (untr_entry ign (AList.delete (fst ci) en)) rest),
         wr') =
        (filter (\<lambda>cf. fst cf \<notin> fst ` set (ci # rest)) en,
         tr + sum_list (map (tr_entry ign en) (ci # rest)),
         untr @ concat (map (untr_entry ign en) (ci # rest)),
         wr')"
    proof -
      have "tr_entry ign en ci = tr_count ign (fst ci) (snd ci) es"
        using Some by (simp add: tr_entry_def)
      then show ?thesis unfolding entries_delete[OF c_rest] f by simp
    qed
    ultimately show ?thesis by metis
  qed
qed

text \<open>The statistics of \<open>compare_dicts\<close>, written out.\<close>

lemma compare_dicts_stats:
  assumes "distinct (map fst i18n)" and "list_all (\<lambda>cf. distinct (map fst (snd cf))) en"
  shows "fst (compare_dicts a l p ign en tot i18n wr) =
     \<lparr>stats_locale = l, en_file_name = p, total = tot,
      translated = sum_list (map (tr_entry ign en) i18n),
      untranslated = concat (map (untr_entry ign en) i18n),
      missing = filter (\<lambda>cf. fst cf \<notin> fst ` set i18n) en\<rparr>"
proof -
  obtain wr' where "classify a l (Some ign) i18n (en, 0, [], wr) =
     (filter (\<lambda>cf. fst cf \<notin> fst ` set i18n) en, 0 + sum_list (map (tr_entry ign en) i18n),
      [] @ concat (map (untr_entry ign en) i18n), wr')"
    using classify_gen[of "[]" i18n en a l ign 0 wr] assms by auto
  then show ?thesis by (simp add: compare_dicts_def)
qed


lemma map_of_filter_distinct:
  "distinct (map fst es) \<Longrightarrow> map_of es f = Some v \<Longrightarrow>
   map_of (filter P es) f = (if P (f, v) then Some v else None)"
proof (induction es)
  case Nil
  then show ?case by simp
next
  case (Cons x es)
  show ?case
  proof (cases "fst x = f")
    case True
    then have xv: "x = (f, v)" using Cons.prems(2) by (cases x) simp
    have "f \<notin> fst ` set es" using Cons.prems(1) True by auto
    then have "f \<notin> fst ` set (filter P es)" by auto
    then have "map_of (filter P es) f = None" by (simp add: map_of_eq_None_iff)
    then show ?thesis using xv by simp
  next
    case False
    then have "map_of es f = Some v" using Cons.prems(2) by (cases x) (simp split: if_splits)
    then show ?thesis using Cons.IH Cons.prems(1) False by (cases x) simp
  qed
qed

lemma map_of_untr_entries:
  "distinct (map fst i18n) \<Longrightarrow>
   map_of (concat (map (untr_entry ign en) i18n)) code =
     (case map_of i18n code of
        None \<Rightarrow> None
      | Some loc \<Rightarrow>
          (case map_of en code of
             None \<Rightarrow> None
           | Some es \<Rightarrow>
               if untr_fields ign code loc es = [] then None
               else Some (untr_fields ign code loc es)))"
proof (induction i18n)
  case Nil
  then show ?case by simp
next
  case (Cons ci rest)
  have d: "distinct (map fst rest)" and nr: "fst ci \<notin> fst ` set rest"
    using Cons.prems by auto
  show ?case
  proof (cases "fst ci = code")
    case True
    then have "map_of rest code = None" using nr by (simp add: map_of_eq_None_iff)
    then have r: "map_of (concat (map (untr_entry ign en) rest)) code = None"
      using Cons.IH[OF d] by simp
    have e: "map_of (untr_entry ign en ci) code =
        (case map_of en code of
           None \<Rightarrow> None
         | Some es \<Rightarrow>
             if untr_fields ign code (snd ci) es = [] then None
             else Some (untr_fields ign code (snd ci) es))"
      using True by (simp add: untr_entry_def split: option.splits)
    have m: "map_of (ci # rest) code = Some (snd ci)" using True by (cases ci) simp
    show ?thesis unfolding m by (simp add: map_add_def r e split: option.splits)
  next
    case False
    have e: "map_of (untr_entry ign en ci) code = None"
      using False by (simp add: untr_entry_def split: option.splits)
    have m: "map_of (ci # rest) code = map_of rest code" using False by (cases ci) simp
    show ?thesis unfolding m using Cons.IH[OF d]
      by (simp add: map_add_def e split: option.splits)
  qed
qed

lemma untranslated_lookup:
  assumes "dict_of_dicts en_dict" and "distinct (map fst i18n_dict)"
    and "map_of en_dict code = Some en_strings"
    and "map_of i18n_dict code = Some i18n_strings"
    and "map_of en_strings field = Some source_value"
  shows "lookup2 (untranslated (fst (compare_dicts a l p ign en_dict tot i18n_dict wr))) code field =
     (if spec_untranslated ign code i18n_strings field source_value then Some source_value else None)"
proof -
  have inner: "list_all (\<lambda>cf. distinct (map fst (snd cf))) en_dict"
    using assms(1) by (simp add: dict_of_dicts_def)
  have des: "distinct (map fst en_strings)" using assms(3) inner by (rule inner_distinct)
  let ?u = "untr_fields ign code i18n_strings en_strings"
  have mu: "map_of ?u field =
      (if spec_untranslated ign code i18n_strings field source_value then Some source_value else None)"
    unfolding untr_fields_def using map_of_filter_distinct[OF des assms(5)] by simp
  have "map_of (untranslated (fst (compare_dicts a l p ign en_dict tot i18n_dict wr))) code =
      (if ?u = [] then None else Some ?u)"
    using compare_dicts_stats[OF assms(2) inner] map_of_untr_entries[OF assms(2)] assms(3,4)
    by simp
  then show ?thesis using mu by (auto simp: lookup2_def)
qed

text \<open>
  Claim C2. For a code present in the source and in the localized mapping and a pair
  (field, source value) of the source record: when the field is absent from the
  localized record, or when it is present, no ignore rule matches, and the localized
  value equals a non-empty source value, the field is recorded in \<open>untranslated\<close>
  under its code with the source value; in every other case (also when the localized
  value is an empty string that differs from the source value) the field is not
  recorded there and is counted in \<open>translated\<close>, which is the number of source
  fields, over all localized codes, that the rule calls translated.
\<close>

theorem classification_rule:
  assumes "dict_of_dicts en_dict" and "distinct (map fst i18n_dict)"
    and "map_of en_dict code = Some en_strings"
    and "map_of i18n_dict code = Some i18n_strings"
    and "map_of en_strings field = Some source_value"
  shows "lookup2 (untranslated (fst (compare_dicts a l p ign en_dict tot i18n_dict wr))) code field =
           (if spec_untranslated ign code i18n_strings field source_value
            then Some source_value else None)
         \<and> translated (fst (compare_dicts a l p ign en_dict tot i18n_dict wr)) =
             sum_list (map (tr_entry ign en_dict) i18n_dict)"
proof -
  have inner: "list_all (\<lambda>cf. distinct (map fst (snd cf))) en_dict"
    using assms(1) by (simp add: dict_of_dicts_def)
  show ?thesis
    using untranslated_lookup[OF assms] compare_dicts_stats[OF assms(2) inner] by simp
qed


lemma spec_untranslated_same:
  assumes "distinct (map fst es)" and "fv \<in> set es" and "decoded (snd fv)"
  shows "spec_untranslated ign code es (fst fv) (snd fv) = (\<not> counts_when_same ign code fv)"
proof -
  have "map_of es (fst fv) = Some (snd fv)"
    using assms(1,2) by (metis map_of_is_SomeI prod.collapse)
  then show ?thesis
    using py_eq_refl[OF assms(3)] by (simp add: spec_untranslated_def counts_when_same_def)
qed

lemma same_entries:
  assumes "dict_of_dicts en" and "decoded_fmap en" and "cf \<in> set en"
  shows "untr_entry ign en cf = same_untranslated ign cf"
    and "tr_entry ign en cf = same_translated ign cf"
proof -
  have m: "map_of en (fst cf) = Some (snd cf)"
    using assms(1,3) by (metis dict_of_dicts_def map_of_is_SomeI prod.collapse)
  have d: "distinct (map fst (snd cf))"
    using assms(1,3) by (simp add: dict_of_dicts_def list_all_iff)
  have dec: "\<forall>fv\<in>set (snd cf). decoded (snd fv)"
    using assms(2,3) by (simp add: decoded_fmap_def list_all_iff)
  have f1: "filter (\<lambda>fv. spec_untranslated ign (fst cf) (snd cf) (fst fv) (snd fv)) (snd cf) =
            filter (\<lambda>fv. \<not> counts_when_same ign (fst cf) fv) (snd cf)"
    by (rule filter_cong[OF refl]) (simp add: spec_untranslated_same[OF d] dec)
  have f2: "filter (\<lambda>fv. \<not> spec_untranslated ign (fst cf) (snd cf) (fst fv) (snd fv)) (snd cf) =
            filter (counts_when_same ign (fst cf)) (snd cf)"
    by (rule filter_cong[OF refl]) (simp add: spec_untranslated_same[OF d] dec)
  show "untr_entry ign en cf = same_untranslated ign cf"
    using m f1 by (simp add: untr_entry_def same_untranslated_def untr_fields_def)
  show "tr_entry ign en cf = same_translated ign cf"
    using m f2 by (simp add: tr_entry_def same_translated_def tr_count_def)
qed

lemma pairs_concat: "pairs (concat ms) = sum_list (map pairs ms)"
  by (induction ms) (simp_all add: pairs_def)

lemma same_split: "same_translated ign cf + pairs (same_untranslated ign cf) = length (snd cf)"
proof (cases "filter (\<lambda>fv. \<not> counts_when_same ign (fst cf) fv) (snd cf) = []")
  case True
  then have "length (filter (\<lambda>fv. \<not> counts_when_same ign (fst cf) fv) (snd cf)) = 0" by simp
  then show ?thesis
    using True sum_length_filter_compl[of "counts_when_same ign (fst cf)" "snd cf"]
    by (simp add: same_translated_def same_untranslated_def pairs_def)
next
  case False
  then show ?thesis
    using sum_length_filter_compl[of "counts_when_same ign (fst cf)" "snd cf"]
    by (simp add: same_translated_def same_untranslated_def pairs_def)
qed

text \<open>
  Claim C1, as amended. When the localized mapping is identical to the source
  mapping, a field is reported untranslated exactly when its value is not the empty
  string and no ignore rule holds that value; \<open>translated\<close> counts the other fields
  (empty strings and ignored values); nothing is missing; \<open>translated\<close> and the
  untranslated pairs add up to \<open>total\<close>. So \<open>translated == total\<close> with an empty
  \<open>untranslated\<close> holds only when every source value is empty or ignored.
\<close>

theorem identical_file_statistics:
  assumes "dict_of_dicts en_dict" and "decoded_fmap en_dict"
  shows "untranslated (fst (compare_dicts a l p ign en_dict (pairs en_dict) en_dict wr)) =
           concat (map (same_untranslated ign) en_dict)
         \<and> translated (fst (compare_dicts a l p ign en_dict (pairs en_dict) en_dict wr)) =
           sum_list (map (same_translated ign) en_dict)
         \<and> missing (fst (compare_dicts a l p ign en_dict (pairs en_dict) en_dict wr)) = []
         \<and> translated (fst (compare_dicts a l p ign en_dict (pairs en_dict) en_dict wr))
             + pairs (untranslated (fst (compare_dicts a l p ign en_dict (pairs en_dict) en_dict wr)))
           = total (fst (compare_dicts a l p ign en_dict (pairs en_dict) en_dict wr))"
proof -
  have d: "distinct (map fst en_dict)"
    and inner: "list_all (\<lambda>cf. distinct (map fst (snd cf))) en_dict"
    using assms(1) by (simp_all add: dict_of_dicts_def)
  let ?s = "fst (compare_dicts a l p ign en_dict (pairs en_dict) en_dict wr)"
  have u: "map (untr_entry ign en_dict) en_dict = map (same_untranslated ign) en_dict"
    by (rule map_cong[OF refl]) (rule same_entries(1)[OF assms])
  have t: "map (tr_entry ign en_dict) en_dict = map (same_translated ign) en_dict"
    by (rule map_cong[OF refl]) (rule same_entries(2)[OF assms])
  have s: "?s = \<lparr>stats_locale = l, en_file_name = p, total = pairs en_dict,
      translated = sum_list (map (same_translated ign) en_dict),
      untranslated = concat (map (same_untranslated ign) en_dict),
      missing = filter (\<lambda>cf. fst cf \<notin> fst ` set en_dict) en_dict\<rparr>"
    using compare_dicts_stats[OF d inner, of a l p ign "pairs en_dict" wr] u t by simp
  have m: "filter (\<lambda>cf. fst cf \<notin> fst ` set en_dict) en_dict = []"
    by (simp add: filter_empty_conv)
  have sum: "sum_list (map (same_translated ign) en_dict)
        + pairs (concat (map (same_untranslated ign) en_dict)) = pairs en_dict"
  proof -
    have "sum_list (map (same_translated ign) xs) + pairs (concat (map (same_untranslated ign) xs))
          = pairs xs" for xs
    proof (induction xs)
      case Nil
      then show ?case by (simp add: pairs_def)
    next
      case (Cons x xs)
      have "pairs (x # xs) = length (snd x) + pairs xs" by (simp add: pairs_def)
      moreover have "pairs (concat (map (same_untranslated ign) (x # xs))) =
          pairs (same_untranslated ign x) + pairs (concat (map (same_untranslated ign) xs))"
        by (simp add: pairs_def)
      ultimately show ?case using Cons.IH same_split[of ign x] by simp
    qed
    then show ?thesis .
  qed
  show ?thesis unfolding s using m sum by simp
qed


theorem classification_rule_witness:
  "lookup2 (untranslated (fst (compare_dicts ex_args ex_locale ex_path [] ex_source 3 ex_localized [])))
      (KStr (py ''A1'')) (py ''text'') = Some (JString (py ''Draw 1''))
   \<and> translated (fst (compare_dicts ex_args ex_locale ex_path [] ex_source 3 ex_localized [])) = 2"
proof -
  have h1: "dict_of_dicts ex_source" by (simp add: dict_of_dicts_def ex_source_def py_def)
  have h2: "distinct (map fst ex_localized)" by (simp add: ex_localized_def py_def)
  have h3: "map_of ex_source (KStr (py ''A1'')) =
      Some [(py ''name'', JString (py ''Noise'')), (py ''text'', JString (py ''Draw 1'')),
            (py ''flavor'', JString [])]"
    by (simp add: ex_source_def)
  have h4: "map_of ex_localized (KStr (py ''A1'')) =
      Some [(py ''name'', JString (py ''Bruit'')), (py ''text'', JString (py ''Draw 1'')),
            (py ''flavor'', JString [])]"
    by (simp add: ex_localized_def)
  have h5: "map_of [(py ''name'', JString (py ''Noise'')), (py ''text'', JString (py ''Draw 1'')),
            (py ''flavor'', JString [])] (py ''text'') = Some (JString (py ''Draw 1''))"
    by (simp add: py_def)
  show ?thesis
    using classification_rule[OF h1 h2 h3 h4 h5, of ex_args ex_locale ex_path "[]" 3 "[]"]
    by (simp add: spec_untranslated_def spec_ignored_def tr_entry_def tr_count_def
        ex_source_def ex_localized_def py_def)
qed

text \<open>
  Claim C7. When \<open>ignore[code][field]\<close> equals the localized value, the loop adds one
  to \<open>translated\<close> for the field and does not record it: the field is absent from
  \<open>untranslated\<close> and \<open>translated\<close> is positive, whatever the source value is,
  also when it is non-empty and equal to the localized value.
\<close>

theorem ignore_override:
  assumes "dict_of_dicts en_dict" and "distinct (map fst i18n_dict)"
    and "map_of en_dict code = Some en_strings"
    and "map_of i18n_dict code = Some i18n_strings"
    and "map_of en_strings field = Some source_value"
    and "map_of i18n_strings field = Some loc_value"
    and "map_of ignore_dict code = Some ignore_strings"
    and "map_of ignore_strings field = Some ignore_value"
    and "py_eq ignore_value loc_value"
  shows "classify_fields a (Some ignore_dict) code i18n_strings ((field, source_value) # rest)
             (tr, u, wr) =
           classify_fields a (Some ignore_dict) code i18n_strings rest
             (tr + 1, u, verbose_print a (Ignoring code field loc_value) 2 wr)
         \<and> lookup2 (untranslated (fst (compare_dicts a l p ignore_dict en_dict tot i18n_dict wr')))
             code field = None
         \<and> 0 < translated (fst (compare_dicts a l p ignore_dict en_dict tot i18n_dict wr'))"
proof -
  have ig: "spec_ignored ignore_dict code field loc_value"
    using assms(7,8,9) by (simp add: spec_ignored_def)
  have nu: "\<not> spec_untranslated ignore_dict code i18n_strings field source_value"
    using ig assms(6) by (simp add: spec_untranslated_def)
  have step: "classify_fields a (Some ignore_dict) code i18n_strings ((field, source_value) # rest)
             (tr, u, wr) =
           classify_fields a (Some ignore_dict) code i18n_strings rest
             (tr + 1, u, verbose_print a (Ignoring code field loc_value) 2 wr)"
    using ig assms(6) by (simp add: should_ignore_spec)
  have inner: "list_all (\<lambda>cf. distinct (map fst (snd cf))) en_dict"
    using assms(1) by (simp add: dict_of_dicts_def)
  have look: "lookup2 (untranslated (fst (compare_dicts a l p ignore_dict en_dict tot i18n_dict wr')))
             code field = None"
    using untranslated_lookup[OF assms(1-5)] nu by simp
  have mem: "(field, source_value) \<in> set en_strings" using assms(5) by (rule map_of_SomeD)
  have "(field, source_value) \<in>
      set (filter (\<lambda>fv. \<not> spec_untranslated ignore_dict code i18n_strings (fst fv) (snd fv)) en_strings)"
    using mem nu by simp
  then have "0 < tr_count ignore_dict code i18n_strings en_strings"
    unfolding tr_count_def by (metis length_pos_if_in_set)
  then have pos: "0 < tr_entry ignore_dict en_dict (code, i18n_strings)"
    using assms(3) by (simp add: tr_entry_def)
  have "(code, i18n_strings) \<in> set i18n_dict" using assms(4) by (rule map_of_SomeD)
  then have "tr_entry ignore_dict en_dict (code, i18n_strings) \<in>
      set (map (tr_entry ignore_dict en_dict) i18n_dict)" by simp
  then have "tr_entry ignore_dict en_dict (code, i18n_strings) \<le>
      sum_list (map (tr_entry ignore_dict en_dict) i18n_dict)"
    by (simp add: member_le_sum_list)
  then have "0 < translated (fst (compare_dicts a l p ignore_dict en_dict tot i18n_dict wr'))"
    using pos compare_dicts_stats[OF assms(2) inner] by simp
  with step look show ?thesis by simp
qed

theorem ignore_override_witness:
  "lookup2 (untranslated (fst (compare_dicts ex_args ex_locale ex_path ex_ability ex_ability 1
       ex_ability []))) (KStr (py ''01001'')) (py ''text'') = None
   \<and> 0 < translated (fst (compare_dicts ex_args ex_locale ex_path ex_ability ex_ability 1
       ex_ability []))"
proof -
  have h1: "dict_of_dicts ex_ability" by (simp add: dict_of_dicts_def ex_ability_def)
  have h2: "distinct (map fst ex_ability)" by (simp add: ex_ability_def)
  have h3: "map_of ex_ability (KStr (py ''01001'')) = Some [(py ''text'', JString (py ''Ability text''))]"
    by (simp add: ex_ability_def)
  have h5: "map_of [(py ''text'', JString (py ''Ability text''))] (py ''text'') =
      Some (JString (py ''Ability text''))" by simp
  have h9: "py_eq (JString (py ''Ability text'')) (JString (py ''Ability text''))" by simp
  show ?thesis
    using ignore_override[OF h1 h2 h3 h3 h5 h5 h3 h5 h9, of ex_args "[]" 0 "[]" "[]" ex_locale ex_path 1 "[]"]
    by simp
qed

text \<open>
  Claim C1 as stated fails: the source record \<open>{"code": "01001", "text": "Ability text"}\<close>
  compared with itself gives \<open>translated = 0\<close>, \<open>total = 1\<close> and a non-empty
  \<open>untranslated\<close>.
\<close>

theorem identical_file_counterexample:
  "translated (fst (compare_dicts ex_args ex_locale ex_path [] ex_ability (pairs ex_ability) ex_ability []))
     \<noteq> total (fst (compare_dicts ex_args ex_locale ex_path [] ex_ability (pairs ex_ability) ex_ability []))
   \<and> untranslated (fst (compare_dicts ex_args ex_locale ex_path [] ex_ability (pairs ex_ability) ex_ability []))
     \<noteq> []"
  by (simp add: compare_dicts_def ex_ability_def pairs_def should_ignore_def py_def)

theorem identical_file_statistics_witness:
  "untranslated (fst (compare_dicts ex_args ex_locale ex_path [] ex_source (pairs ex_source) ex_source []))
     = [(KStr (py ''A1''),
         [(py ''name'', JString (py ''Noise'')), (py ''text'', JString (py ''Draw 1''))])]
   \<and> translated (fst (compare_dicts ex_args ex_locale ex_path [] ex_source (pairs ex_source) ex_source []))
     = 1
   \<and> missing (fst (compare_dicts ex_args ex_locale ex_path [] ex_source (pairs ex_source) ex_source []))
     = []"
proof -
  have h1: "dict_of_dicts ex_source" by (simp add: dict_of_dicts_def ex_source_def py_def)
  have h2: "decoded_fmap ex_source" by (simp add: decoded_fmap_def ex_source_def)
  have u: "concat (map (same_untranslated []) ex_source) =
      [(KStr (py ''A1''),
         [(py ''name'', JString (py ''Noise'')), (py ''text'', JString (py ''Draw 1''))])]"
    by (simp add: same_untranslated_def counts_when_same_def spec_ignored_def ex_source_def py_def)
  have t: "sum_list (map (same_translated []) ex_source) = 1"
    by (simp add: same_translated_def counts_when_same_def spec_ignored_def ex_source_def py_def)
  show ?thesis
    using identical_file_statistics[OF h1 h2, of ex_args ex_locale ex_path "[]" "[]"] u t by simp
qed

lemma gts_fields:
  "fst (fst (get_translatable_strings a item p warn wr)) = translatable_of item"
  by (simp add: get_translatable_strings_def translatable_of_def Let_def)

lemma gts_quiet: "snd (get_translatable_strings a item p False wr) = wr"
  by (simp add: get_translatable_strings_def Let_def)

lemma fold_fields_keys:
  "fst ` set (foldl (\<lambda>result field.
              case map_of item field of
                Some v \<Rightarrow> AList.update field v result
              | None \<Rightarrow> result) r fs) \<subseteq> fst ` set r \<union> set fs"
proof (induction fs arbitrary: r)
  case Nil
  then show ?case by simp
next
  case (Cons f fs)
  show ?case
  proof (cases "map_of item f")
    case None
    then show ?thesis using Cons.IH[of r] by auto
  next
    case (Some v)
    have "fst ` set (AList.update f v r) = insert f (fst ` set r)"
      by (simp add: AList.dom_update)
    then show ?thesis using Some Cons.IH[of "AList.update f v r"] by auto
  qed
qed

lemma fold_fields_distinct:
  "distinct (map fst r) \<Longrightarrow>
   distinct (map fst (foldl (\<lambda>result field.
              case map_of item field of
                Some v \<Rightarrow> AList.update field v result
              | None \<Rightarrow> result) r fs))"
proof (induction fs arbitrary: r)
  case Nil
  then show ?case by simp
next
  case (Cons f fs)
  show ?case
  proof (cases "map_of item f")
    case None
    then show ?thesis using Cons by simp
  next
    case (Some v)
    have "distinct (map fst (AList.update f v r))" using Cons.prems by (rule AList.distinct_update)
    then show ?thesis using Some Cons.IH by simp
  qed
qed

lemma translatable_of_keys: "list_all (\<lambda>fv. fst fv \<in> set translatable_fields) (translatable_of item)"
  using fold_fields_keys[of item "[]" translatable_fields]
  by (auto simp: translatable_of_def list_all_iff)

lemma translatable_of_distinct: "distinct (map fst (translatable_of item))"
  unfolding translatable_of_def by (rule fold_fields_distinct) simp

lemma pairs_append: "pairs (m @ n) = pairs m + pairs n"
  by (simp add: pairs_def)

lemma loaded_ok_append:
  assumes "loaded_ok m" and "c \<notin> fst ` set m" and "translatable_of item \<noteq> []"
  shows "loaded_ok (m @ [(c, translatable_of item)])"
  using assms translatable_of_keys[of item] translatable_of_distinct[of item]
  by (auto simp: loaded_ok_def dict_of_dicts_def)

lemma load_loop_inv:
  "load_loop a p warn cs (tr, tot, fe, wr) = Inr (tr', tot', fe', wr') \<Longrightarrow>
   loaded_ok tr \<Longrightarrow> tot = pairs tr \<Longrightarrow> loaded_ok tr' \<and> tot' = pairs tr'"
proof (induction cs arbitrary: tr tot fe wr)
  case Nil
  then show ?case by auto
next
  case (Cons c cs)
  from Cons.prems(1) obtain code where gc: "get_code c = Inr code"
    by (cases "get_code c") auto
  show ?case
  proof (cases "code \<in> fst ` set tr")
    case True
    then have "load_loop a p warn cs (tr, tot, fe, verbose_print a (AlreadyHasEntry code) 0 wr) =
        Inr (tr', tot', fe', wr')"
      using Cons.prems(1) gc by simp
    then show ?thesis using Cons.IH Cons.prems(2,3) by blast
  next
    case False
    from Cons.prems(1) gc False obtain item where c: "c = JObject item"
      by (cases c) auto
    obtain ex wr1 where g: "get_translatable_strings a item p warn wr = ((translatable_of item, ex), wr1)"
      using gts_fields[of a item p warn wr]
      by (cases "get_translatable_strings a item p warn wr") (auto simp: prod_eq_iff)
    show ?thesis
    proof (cases "translatable_of item = []")
      case True
      then have "load_loop a p warn cs (tr, tot, fe \<or> ex, wr1) = Inr (tr', tot', fe', wr')"
        using Cons.prems(1) gc False c g by simp
      then show ?thesis using Cons.IH Cons.prems(2,3) by blast
    next
      case ne: False
      have u: "AList.update code (translatable_of item) tr = tr @ [(code, translatable_of item)]"
        using False by (rule update_fresh)
      have "load_loop a p warn cs (tr @ [(code, translatable_of item)], tot + length (translatable_of item),
                fe \<or> ex, wr1) = Inr (tr', tot', fe', wr')"
        using Cons.prems(1) gc False c g ne u by simp
      moreover have "loaded_ok (tr @ [(code, translatable_of item)])"
        using Cons.prems(2) False ne by (rule loaded_ok_append)
      moreover have "tot + length (translatable_of item) = pairs (tr @ [(code, translatable_of item)])"
        using Cons.prems(3) by (simp add: pairs_def)
      ultimately show ?thesis using Cons.IH by blast
    qed
  qed
qed

lemma say_fields [simp]:
  "formatting_errors (say a m n w) = formatting_errors w"
  "validation_errors (say a m n w) = validation_errors w"
  "files (say a m n w) = files w"
  "writable (say a m n w) = writable w"
  by (simp_all add: say_def)

lemma load_json_file_frame:
  assumes "load_json_file a path w = Inr (r, w1)"
  shows "formatting_errors w1 = formatting_errors w"
    and "validation_errors w \<le> validation_errors w1"
    and "(files w1 q = None) = (files w q = None)"
    and "writable w1 = writable w"
proof -
  from assms obtain bin where f: "files w path = Some bin"
    by (cases "files w path") (auto simp: load_json_file_def)
  from assms f obtain raw x where d: "decode_file bin = Some (raw, x)"
    by (cases "decode_file bin") (auto simp: load_json_file_def)
  note unf = load_json_file_def f d Let_def
  show "formatting_errors w1 = formatting_errors w"
    using assms by (auto simp: unf split: if_splits)
  show "validation_errors w \<le> validation_errors w1"
    using assms by (auto simp: unf split: if_splits)
  show "(files w1 q = None) = (files w q = None)"
    using assms f by (auto simp: unf split: if_splits)
  show "writable w1 = writable w"
    using assms by (auto simp: unf split: if_splits)
qed

lemma flatten_effect_keys [simp]: "map fst (flatten_effect m) = map fst m"
  by (simp add: flatten_effect_def comp_def)

lemma load_translatable_dict_absent:
  "files w p = None \<Longrightarrow>
   load_translatable_dict a p warn w = Inr ([], 0, say a (CouldNotLoad p) 1 w)"
  by (simp add: load_translatable_dict_def check_file_access_def)

lemma loaded_ok_Nil [simp]: "loaded_ok []"
  by (simp add: loaded_ok_def dict_of_dicts_def)

lemma load_translatable_dict_result:
  assumes "load_translatable_dict a p warn w = Inr (d, t, w1)"
  shows "\<exists>d0. loaded_ok d0 \<and> t = pairs d0 \<and> (d = d0 \<or> warn \<and> d = flatten_effect d0)"
    and "formatting_errors w1 = formatting_errors w"
    and "validation_errors w \<le> validation_errors w1"
    and "(files w1 q = None) = (files w q = None)"
    and "writable w1 = writable w"
proof -
  show "\<exists>d0. loaded_ok d0 \<and> t = pairs d0 \<and> (d = d0 \<or> warn \<and> d = flatten_effect d0)"
  proof (cases "check_file_access w p")
    case False
    then have "d = []" "t = 0" using assms by (simp_all add: load_translatable_dict_def)
    then show ?thesis by (intro exI[of _ "[]"]) (simp add: pairs_def)
  next
    case True
    from assms True obtain fd w0 where lj: "load_json_file a p w = Inr (fd, w0)"
      by (cases "load_json_file a p w") (auto simp: load_translatable_dict_def)
    from assms True lj obtain wr0 where cd: "check_duplicate_codes a fd p (out w0) = Inr wr0"
      by (cases "check_duplicate_codes a fd p (out w0)") (auto simp: load_translatable_dict_def)
    from assms True lj cd obtain cs where it: "py_iter fd = Inr cs"
      by (cases "py_iter fd") (auto simp: load_translatable_dict_def)
    from assms True lj cd it obtain d0 t0 fe wr where
      ll: "load_loop a p warn cs ([], 0, False, wr0) = Inr (d0, t0, fe, wr)"
      by (cases "load_loop a p warn cs ([], 0, False, wr0)") (auto simp: load_translatable_dict_def)
    have ok: "loaded_ok d0 \<and> t0 = pairs d0"
      using load_loop_inv[OF ll] by (simp add: pairs_def)
    have "t = t0 \<and> (d = d0 \<or> warn \<and> d = flatten_effect d0)"
      using assms True lj cd it ll by (auto simp: load_translatable_dict_def split: if_splits)
    with ok show ?thesis by blast
  qed
next
  have frame: "formatting_errors w1 = formatting_errors w \<and> validation_errors w \<le> validation_errors w1
      \<and> (files w1 q = None) = (files w q = None) \<and> writable w1 = writable w"
  proof (cases "check_file_access w p")
    case False
    then have "w1 = say a (CouldNotLoad p) 1 w" using assms by (simp add: load_translatable_dict_def)
    then show ?thesis by simp
  next
    case True
    from assms True obtain fd w0 where lj: "load_json_file a p w = Inr (fd, w0)"
      by (cases "load_json_file a p w") (auto simp: load_translatable_dict_def)
    have "\<exists>wr. w1 = w0\<lparr>out := wr\<rparr>"
      using assms True lj
      by (auto simp: load_translatable_dict_def split: sum.splits if_splits)
    then obtain wr where "w1 = w0\<lparr>out := wr\<rparr>" by blast
    then show ?thesis using load_json_file_frame[OF lj] by simp
  qed
  then show "formatting_errors w1 = formatting_errors w"
    and "validation_errors w \<le> validation_errors w1"
    and "(files w1 q = None) = (files w q = None)"
    and "writable w1 = writable w" by simp_all
qed

lemma code_not_translatable: "py ''code'' \<notin> set translatable_fields"
  by (simp add: translatable_fields_def py_def)

lemma loaded_ok_whitelisted: "loaded_ok m \<Longrightarrow> whitelisted m"
  by (simp add: loaded_ok_def whitelisted_def list_all_iff)

lemma flatten_fresh:
  assumes "list_all (\<lambda>fv. fst fv \<in> set translatable_fields) fs"
  shows "AList.update (py ''code'') v fs = fs @ [(py ''code'', v)]"
proof (rule update_fresh)
  show "py ''code'' \<notin> fst ` set fs"
    using assms code_not_translatable by (auto simp: list_all_iff)
qed

lemma flatten_pairs: "whitelisted m \<Longrightarrow> pairs (flatten_effect m) = pairs m + length m"
proof (induction m)
  case Nil
  then show ?case by (simp add: flatten_effect_def pairs_def)
next
  case (Cons cf m)
  have w: "whitelisted m" and f: "list_all (\<lambda>fv. fst fv \<in> set translatable_fields) (snd cf)"
    using Cons.prems by (simp_all add: whitelisted_def)
  have "pairs (flatten_effect (cf # m)) = Suc (length (snd cf)) + pairs (flatten_effect m)"
    using flatten_fresh[OF f] by (simp add: flatten_effect_def pairs_def)
  then show ?case using Cons.IH[OF w] by (simp add: pairs_def)
qed

lemma pairs_delete:
  "distinct (map fst en) \<Longrightarrow>
   pairs (AList.delete c en) + (case map_of en c of None \<Rightarrow> 0 | Some es \<Rightarrow> length es) = pairs en"
proof (induction en)
  case Nil
  then show ?case by (simp add: pairs_def)
next
  case (Cons x en)
  show ?case
  proof (cases "fst x = c")
    case True
    then have "c \<notin> fst ` set en" using Cons.prems by auto
    then have "AList.delete c en = en" by simp
    then show ?thesis using True by (cases x) (simp add: pairs_def)
  next
    case False
    then show ?thesis using Cons by (cases x) (auto simp: pairs_def)
  qed
qed

lemma entry_split:
  "tr_entry ign en ci + pairs (untr_entry ign en ci) =
     (case map_of en (fst ci) of None \<Rightarrow> 0 | Some es \<Rightarrow> length es)"
proof (cases "map_of en (fst ci)")
  case None
  then show ?thesis by (simp add: tr_entry_def untr_entry_def pairs_def)
next
  case (Some es)
  show ?thesis
  proof (cases "untr_fields ign (fst ci) (snd ci) es = []")
    case True
    then show ?thesis using Some tr_untr_length[of ign "fst ci" "snd ci" es]
      by (simp add: tr_entry_def untr_entry_def pairs_def)
  next
    case False
    then show ?thesis using Some tr_untr_length[of ign "fst ci" "snd ci" es]
      by (simp add: tr_entry_def untr_entry_def pairs_def)
  qed
qed

lemma classification_conserves:
  "distinct (map fst i18n) \<Longrightarrow> distinct (map fst en) \<Longrightarrow>
   pairs (filter (\<lambda>cf. fst cf \<notin> fst ` set i18n) en)
     + sum_list (map (tr_entry ign en) i18n)
     + pairs (concat (map (untr_entry ign en) i18n)) = pairs en"
proof (induction i18n arbitrary: en)
  case Nil
  then show ?case by (simp add: pairs_def)
next
  case (Cons ci rest)
  have c_rest: "fst ci \<notin> fst ` set rest" and d: "distinct (map fst rest)"
    using Cons.prems(1) by auto
  have den: "distinct (map fst (AList.delete (fst ci) en))"
    using Cons.prems(2) by (rule AList.distinct_delete)
  have f: "filter (\<lambda>cf. fst cf \<notin> fst ` set (ci # rest)) en =
           filter (\<lambda>cf. fst cf \<notin> fst ` set rest) (AList.delete (fst ci) en)"
    by (simp add: delete_filter conj_commute)
  have ih: "pairs (filter (\<lambda>cf. fst cf \<notin> fst ` set rest) (AList.delete (fst ci) en))
     + sum_list (map (tr_entry ign en) rest)
     + pairs (concat (map (untr_entry ign en) rest)) = pairs (AList.delete (fst ci) en)"
    using Cons.IH[OF d den] entries_delete[OF c_rest] by simp
  have "pairs (concat (map (untr_entry ign en) (ci # rest))) =
      pairs (untr_entry ign en ci) + pairs (concat (map (untr_entry ign en) rest))"
    by (simp add: pairs_append)
  then show ?case
    unfolding f using ih entry_split[of ign en ci] pairs_delete[OF Cons.prems(2), of "fst ci"]
    by simp
qed

lemma report_flattened_fst [simp]: "fst (report_flattened a h m wr) = flatten_effect m"
  by (simp add: report_flattened_def flatten_effect_def)

lemma compare_translations_result:
  assumes "compare_translations a l p w = Inr (s, w')"
  obtains en tot w1 i18n ti w3 ign tg w5 where
    "load_translatable_dict a p False w = Inr (en, tot, w1)"
    and "load_translatable_dict a (resolvePath l p) True
           (if tot = 0 then say a (NoTranslatableStrings (name l) p) 1 w1 else w1) =
         Inr (i18n, ti, w3)"
    and "load_translatable_dict a (removesuffix (resolvePath l p) (py ''.json'') @ py ''.ignore'') False
           (w3\<lparr>out := check_extra_i18n_codes a i18n en (resolvePath l p) (out w3)\<rparr>) =
         Inr (ign, tg, w5)"
    and "s = (fst (compare_dicts a l p ign en tot i18n (out w5)))
           \<lparr>missing := flatten_effect (missing (fst (compare_dicts a l p ign en tot i18n (out w5)))),
            untranslated := flatten_effect (untranslated (fst (compare_dicts a l p ign en tot i18n (out w5))))\<rparr>"
    and "\<exists>wr. w' = w5\<lparr>out := wr\<rparr>"
proof -
  from assms obtain en tot w1 where l1: "load_translatable_dict a p False w = Inr (en, tot, w1)"
    by (cases "load_translatable_dict a p False w") (auto simp: compare_translations_def)
  let ?w2 = "if tot = 0 then say a (NoTranslatableStrings (name l) p) 1 w1 else w1"
  from assms l1 obtain i18n ti w3 where
    l2: "load_translatable_dict a (resolvePath l p) True ?w2 = Inr (i18n, ti, w3)"
    by (cases "load_translatable_dict a (resolvePath l p) True ?w2")
       (auto simp: compare_translations_def Let_def)
  let ?w4 = "w3\<lparr>out := check_extra_i18n_codes a i18n en (resolvePath l p) (out w3)\<rparr>"
  let ?ip = "removesuffix (resolvePath l p) (py ''.json'') @ py ''.ignore''"
  from assms l1 l2 obtain ign tg w5 where
    l3: "load_translatable_dict a ?ip False ?w4 = Inr (ign, tg, w5)"
    by (cases "load_translatable_dict a ?ip False ?w4")
       (auto simp: compare_translations_def Let_def)
  obtain st wr where cd: "compare_dicts a l p ign en tot i18n (out w5) = (st, wr)"
    by (cases "compare_dicts a l p ign en tot i18n (out w5)") auto
  obtain m1 wr1 where r1: "report_flattened a MissingJson (missing st) wr = (m1, wr1)"
    by (cases "report_flattened a MissingJson (missing st) wr") auto
  obtain u1 wr2 where r2: "report_flattened a UntranslatedJson (untranslated st) wr1 = (u1, wr2)"
    by (cases "report_flattened a UntranslatedJson (untranslated st) wr1") auto
  have m1: "m1 = flatten_effect (missing st)"
    using report_flattened_fst[of a MissingJson "missing st" wr] r1 by simp
  have u1: "u1 = flatten_effect (untranslated st)"
    using report_flattened_fst[of a UntranslatedJson "untranslated st" wr1] r2 by simp
  have res: "s = st\<lparr>missing := m1, untranslated := u1\<rparr> \<and> w' = w5\<lparr>out := wr2\<rparr>"
    using assms l1 l2 l3 cd r1 r2 by (simp add: compare_translations_def Let_def)
  show ?thesis
    by (rule that[OF l1 l2 l3]) (use res cd m1 u1 in auto)
qed

lemma drop_code_flatten: "whitelisted m \<Longrightarrow> drop_code (flatten_effect m) = m"
proof (induction m)
  case Nil
  then show ?case by (simp add: drop_code_def flatten_effect_def)
next
  case (Cons cf m)
  have w: "whitelisted m" and f: "list_all (\<lambda>fv. fst fv \<in> set translatable_fields) (snd cf)"
    using Cons.prems by (simp_all add: whitelisted_def)
  have "filter (\<lambda>fv. fst fv \<noteq> py ''code'') (snd cf) = snd cf"
    using f code_not_translatable by (auto simp: list_all_iff filter_id_conv)
  then have "drop_code (flatten_effect [cf]) = [cf]"
    using flatten_fresh[OF f] by (simp add: drop_code_def flatten_effect_def)
  then show ?case using Cons.IH[OF w] by (simp add: drop_code_def flatten_effect_def)
qed

lemma whitelisted_filter: "whitelisted m \<Longrightarrow> whitelisted (filter P m)"
  by (induction m) (simp_all add: whitelisted_def)

lemma untr_entry_whitelisted:
  assumes "whitelisted en"
  shows "whitelisted (untr_entry ign en ci)"
proof (cases "map_of en (fst ci)")
  case None
  then show ?thesis by (simp add: untr_entry_def whitelisted_def)
next
  case (Some es)
  then have "(fst ci, es) \<in> set en" by (rule map_of_SomeD)
  then have "list_all (\<lambda>fv. fst fv \<in> set translatable_fields) es"
    using assms by (auto simp: whitelisted_def list_all_iff)
  then show ?thesis using Some
    by (simp add: untr_entry_def whitelisted_def untr_fields_def list_all_iff)
qed

lemma whitelisted_concat: "(\<forall>m\<in>set ms. whitelisted m) \<Longrightarrow> whitelisted (concat ms)"
  by (induction ms) (simp_all add: whitelisted_def)

lemma untr_entry_subset: "set (map fst (untr_entry ign en ci)) \<subseteq> set (map fst en)"
proof (cases "map_of en (fst ci)")
  case None
  then show ?thesis by (simp add: untr_entry_def)
next
  case (Some es)
  then have "(fst ci, es) \<in> set en" by (rule map_of_SomeD)
  then have "fst ci \<in> fst ` set en" by (metis fst_conv imageI)
  then show ?thesis using Some by (simp add: untr_entry_def)
qed

text \<open>What \<open>compare_translations\<close> returns, in terms of the three loaded mappings.\<close>

lemma compare_translations_stats:
  assumes "compare_translations a l p w = Inr (s, w')"
  obtains en i18n ign w1 where
    "load_translatable_dict a p False w = Inr (en, pairs en, w1)"
    and "loaded_ok en" and "distinct (map fst i18n)"
    and "files w (resolvePath l p) = None \<longrightarrow> i18n = []"
    and "s = \<lparr>stats_locale = l, en_file_name = p, total = pairs en,
              translated = sum_list (map (tr_entry ign en) i18n),
              untranslated = flatten_effect (concat (map (untr_entry ign en) i18n)),
              missing = flatten_effect (filter (\<lambda>cf. fst cf \<notin> fst ` set i18n) en)\<rparr>"
proof -
  from assms obtain en tot w1 i18n ti w3 ign tg w5 where
    l1: "load_translatable_dict a p False w = Inr (en, tot, w1)"
    and l2: "load_translatable_dict a (resolvePath l p) True
           (if tot = 0 then say a (NoTranslatableStrings (name l) p) 1 w1 else w1) =
         Inr (i18n, ti, w3)"
    and l3: "load_translatable_dict a (removesuffix (resolvePath l p) (py ''.json'') @ py ''.ignore'') False
           (w3\<lparr>out := check_extra_i18n_codes a i18n en (resolvePath l p) (out w3)\<rparr>) =
         Inr (ign, tg, w5)"
    and s: "s = (fst (compare_dicts a l p ign en tot i18n (out w5)))
           \<lparr>missing := flatten_effect (missing (fst (compare_dicts a l p ign en tot i18n (out w5)))),
            untranslated := flatten_effect (untranslated (fst (compare_dicts a l p ign en tot i18n (out w5))))\<rparr>"
    and w': "\<exists>wr. w' = w5\<lparr>out := wr\<rparr>"
    by (rule compare_translations_result)
  from load_translatable_dict_result(1)[OF l1] have en: "loaded_ok en" and tot: "tot = pairs en"
    by auto
  from load_translatable_dict_result(1)[OF l2] obtain d0 where
    "loaded_ok d0" and "i18n = d0 \<or> i18n = flatten_effect d0" by auto
  then have di: "distinct (map fst i18n)" by (auto simp: loaded_ok_def dict_of_dicts_def)
  have inner: "list_all (\<lambda>cf. distinct (map fst (snd cf))) en"
    using en by (simp add: loaded_ok_def dict_of_dicts_def)
  have absent: "files w (resolvePath l p) = None \<longrightarrow> i18n = []"
  proof
    assume n: "files w (resolvePath l p) = None"
    let ?w2 = "if tot = 0 then say a (NoTranslatableStrings (name l) p) 1 w1 else w1"
    have "files ?w2 (resolvePath l p) = None"
      using load_translatable_dict_result(4)[OF l1, of "resolvePath l p"] n by simp
    then show "i18n = []"
      using load_translatable_dict_absent[of ?w2 "resolvePath l p" a True] l2 by simp
  qed
  show ?thesis
    by (rule that[OF _ en di absent])
       (use l1 tot s compare_dicts_stats[OF di inner, of a l p ign "pairs en" "out w5"] in simp_all)
qed

text \<open>
  Claim C9, as amended. For every run of the comparator that returns, \<open>total\<close> equals
  \<open>translated\<close> plus the (code, field) pairs of \<open>untranslated\<close> plus those of
  \<open>missing\<close>, where the entry that \<open>flatten_i18n_dict\<close> writes under the key
  \<open>code\<close> into every inner dict of the two returned mappings is not counted.
  \<open>total\<close> is the number of pairs of the source mapping, and every code of
  \<open>untranslated\<close> and \<open>missing\<close> is a code of the source mapping: a localized code
  that the source does not have contributes to none of the three.
\<close>

theorem conservation:
  assumes "compare_translations a l p w = Inr (s, w')"
    and "load_translatable_dict a p False w = Inr (en_dict, tot, w1)"
  shows "total s = translated s + field_pairs (untranslated s) + field_pairs (missing s)
         \<and> total s = pairs en_dict
         \<and> set (map fst (untranslated s)) \<subseteq> set (map fst en_dict)
         \<and> set (map fst (missing s)) \<subseteq> set (map fst en_dict)"
proof -
  from assms(1) obtain en i18n ign w1' where
    l1: "load_translatable_dict a p False w = Inr (en, pairs en, w1')"
    and en: "loaded_ok en" and di: "distinct (map fst i18n)"
    and s: "s = \<lparr>stats_locale = l, en_file_name = p, total = pairs en,
              translated = sum_list (map (tr_entry ign en) i18n),
              untranslated = flatten_effect (concat (map (untr_entry ign en) i18n)),
              missing = flatten_effect (filter (\<lambda>cf. fst cf \<notin> fst ` set i18n) en)\<rparr>"
    by (rule compare_translations_stats)
  have same: "en_dict = en" using l1 assms(2) by simp
  have wl: "whitelisted en" using en by (rule loaded_ok_whitelisted)
  have den: "distinct (map fst en)" using en by (simp add: loaded_ok_def dict_of_dicts_def)
  have wu: "whitelisted (concat (map (untr_entry ign en) i18n))"
    by (rule whitelisted_concat) (auto simp: untr_entry_whitelisted[OF wl])
  have wm: "whitelisted (filter (\<lambda>cf. fst cf \<notin> fst ` set i18n) en)"
    using wl by (rule whitelisted_filter)
  have fu: "field_pairs (untranslated s) = pairs (concat (map (untr_entry ign en) i18n))"
    unfolding s field_pairs_def using drop_code_flatten[OF wu] by simp
  have fm: "field_pairs (missing s) = pairs (filter (\<lambda>cf. fst cf \<notin> fst ` set i18n) en)"
    unfolding s field_pairs_def using drop_code_flatten[OF wm] by simp
  have eq: "total s = translated s + field_pairs (untranslated s) + field_pairs (missing s)"
    unfolding fu fm using classification_conserves[OF di den, of ign] by (simp add: s)
  have "set (map fst (concat (map (untr_entry ign en) i18n))) \<subseteq> set (map fst en)"
  proof (induction i18n)
    case Nil
    then show ?case by simp
  next
    case (Cons ci rest)
    then show ?case using untr_entry_subset[of ign en ci] by simp
  qed
  then have ku: "set (map fst (untranslated s)) \<subseteq> set (map fst en)"
    by (simp add: s)
  have km: "set (map fst (missing s)) \<subseteq> set (map fst en)"
    by (auto simp: s)
  show ?thesis using eq ku km same by (simp add: s)
qed

text \<open>
  Claim C6, as amended. When the localized file does not exist, the localized mapping
  is empty: \<open>translated = 0\<close>, \<open>untranslated\<close> is empty, and \<open>missing\<close> is the whole
  source mapping, every inner dict of which also holds its code under the key \<open>code\<close>
  (the entry \<open>flatten_i18n_dict\<close> writes); without these entries \<open>missing\<close> is the
  source mapping itself.
\<close>

theorem missing_file:
  assumes "compare_translations a l p w = Inr (s, w')"
    and "load_translatable_dict a p False w = Inr (en_dict, tot, w1)"
    and "files w (resolvePath l p) = None"
  shows "translated s = 0 \<and> untranslated s = [] \<and> missing s = flatten_effect en_dict
         \<and> drop_code (missing s) = en_dict \<and> total s = tot"
proof -
  from assms(1) obtain en i18n ign w1' where
    l1: "load_translatable_dict a p False w = Inr (en, pairs en, w1')"
    and en: "loaded_ok en" and di: "distinct (map fst i18n)"
    and ab: "files w (resolvePath l p) = None \<longrightarrow> i18n = []"
    and s: "s = \<lparr>stats_locale = l, en_file_name = p, total = pairs en,
              translated = sum_list (map (tr_entry ign en) i18n),
              untranslated = flatten_effect (concat (map (untr_entry ign en) i18n)),
              missing = flatten_effect (filter (\<lambda>cf. fst cf \<notin> fst ` set i18n) en)\<rparr>"
    by (rule compare_translations_stats)
  have same: "en_dict = en" "tot = pairs en" using l1 assms(2) by simp_all
  have e: "i18n = []" using ab assms(3) by simp
  have wl: "whitelisted en" using en by (rule loaded_ok_whitelisted)
  show ?thesis
    unfolding s e using same drop_code_flatten[OF wl] by (simp add: flatten_effect_def)
qed

lemma verbose_print_0 [simp]: "verbose_print a m 0 wr = wr @ [m]"
  by (simp add: verbose_print_def)

lemma full_record_code: "full_record r \<Longrightarrow> get_code r = Inr (record_code r)"
  by (auto simp: full_record_def record_code_def split: json.splits sum.splits)

lemma full_record_item:
  "full_record r \<Longrightarrow> \<exists>item. r = JObject item \<and> translatable_of item = record_fields r
     \<and> record_fields r \<noteq> []"
  by (auto simp: full_record_def record_fields_def split: json.splits sum.splits)

lemma check_duplicate_codes_loop_full:
  "list_all full_record recs \<Longrightarrow>
   check_duplicate_codes_loop a p recs seen wr =
     Inr (wr @ map (\<lambda>c. DuplicateCode c p) (later_codes recs seen))"
proof (induction recs arbitrary: seen wr)
  case Nil
  then show ?case by simp
next
  case (Cons r recs)
  have c: "get_code r = Inr (record_code r)" using Cons.prems by (simp add: full_record_code)
  have rest: "list_all full_record recs" using Cons.prems by simp
  show ?case using c Cons.IH[OF rest] by simp
qed

lemma gts_False:
  "get_translatable_strings a item p False wr =
     ((translatable_of item, snd (fst (get_translatable_strings a item p False wr))), wr)"
  using gts_fields[of a item p False wr] gts_quiet[of a item p wr]
  by (simp add: prod_eq_iff)

lemma load_loop_full:
  "list_all full_record recs \<Longrightarrow>
   \<exists>fe'. load_loop a p False recs (tr, tot, fe, wr) =
     Inr (tr @ map (\<lambda>r. (record_code r, record_fields r)) (first_records recs (fst ` set tr)),
          tot + sum_list (map (\<lambda>r. length (record_fields r)) (first_records recs (fst ` set tr))),
          fe',
          wr @ map AlreadyHasEntry (later_codes recs (fst ` set tr)))"
proof (induction recs arbitrary: tr tot fe wr)
  case Nil
  then show ?case by simp
next
  case (Cons r recs)
  have c: "get_code r = Inr (record_code r)" using Cons.prems by (simp add: full_record_code)
  have rest: "list_all full_record recs" using Cons.prems by simp
  from Cons.prems obtain item where r: "r = JObject item"
    and f: "translatable_of item = record_fields r" and ne: "record_fields r \<noteq> []"
    using full_record_item[of r] by auto
  show ?case
  proof (cases "record_code r \<in> fst ` set tr")
    case True
    obtain fe' where "load_loop a p False recs (tr, tot, fe, wr @ [AlreadyHasEntry (record_code r)]) =
        Inr (tr @ map (\<lambda>r. (record_code r, record_fields r)) (first_records recs (fst ` set tr)),
          tot + sum_list (map (\<lambda>r. length (record_fields r)) (first_records recs (fst ` set tr))),
          fe',
          (wr @ [AlreadyHasEntry (record_code r)]) @ map AlreadyHasEntry (later_codes recs (fst ` set tr)))"
      using Cons.IH[OF rest] by blast
    then show ?thesis using True c by simp
  next
    case False
    let ?tr = "tr @ [(record_code r, record_fields r)]"
    have u: "AList.update (record_code r) (record_fields r) tr = ?tr"
      using False by (rule update_fresh)
    have k: "fst ` set ?tr = insert (record_code r) (fst ` set tr)" by simp
    obtain ex where g: "get_translatable_strings a item p False wr = ((record_fields r, ex), wr)"
      using gts_False[of a item p wr] f by metis
    obtain fe' where "load_loop a p False recs
          (?tr, tot + length (record_fields r), fe \<or> ex, wr) =
        Inr (?tr @ map (\<lambda>r. (record_code r, record_fields r)) (first_records recs (fst ` set ?tr)),
          tot + length (record_fields r) +
            sum_list (map (\<lambda>r. length (record_fields r)) (first_records recs (fst ` set ?tr))),
          fe',
          wr @ map AlreadyHasEntry (later_codes recs (fst ` set ?tr)))"
      using Cons.IH[OF rest] by blast
    then show ?thesis using False c g ne u r unfolding k by simp
  qed
qed

lemma load_first_occurrences:
  assumes "load_json_file a path w = Inr (Some (JArray recs), w1)"
    and "list_all full_record recs"
  shows "load_translatable_dict a path False w =
     Inr (map (\<lambda>r. (record_code r, record_fields r)) (first_records recs {}),
          sum_list (map (\<lambda>r. length (record_fields r)) (first_records recs {})),
          w1\<lparr>out := out w1 @ map (\<lambda>c. DuplicateCode c path) (later_codes recs {})
                          @ map AlreadyHasEntry (later_codes recs {})\<rparr>)"
proof -
  have acc: "check_file_access w path"
    using assms(1) by (cases "files w path") (auto simp: check_file_access_def load_json_file_def)
  have cd: "check_duplicate_codes a (Some (JArray recs)) path (out w1) =
      Inr (out w1 @ map (\<lambda>c. DuplicateCode c path) (later_codes recs {}))"
    using check_duplicate_codes_loop_full[OF assms(2)] by (simp add: check_duplicate_codes_def)
  obtain fe' where ll: "load_loop a path False recs
      ([], 0, False, out w1 @ map (\<lambda>c. DuplicateCode c path) (later_codes recs {})) =
     Inr (map (\<lambda>r. (record_code r, record_fields r)) (first_records recs {}),
          sum_list (map (\<lambda>r. length (record_fields r)) (first_records recs {})),
          fe',
          out w1 @ map (\<lambda>c. DuplicateCode c path) (later_codes recs {})
            @ map AlreadyHasEntry (later_codes recs {}))"
    using load_loop_full[OF assms(2), of a path "[]" 0 False
        "out w1 @ map (\<lambda>c. DuplicateCode c path) (later_codes recs {})"]
    by auto
  show ?thesis
    using acc assms(1) cd ll by (simp add: load_translatable_dict_def)
qed

text \<open>
  Claim C8, as amended. For a file that is a list of records, each with at least one
  whitelisted field: the field mapping and \<open>total\<close> are built from the first
  occurrence of every code alone, and each later occurrence of a code is dropped with
  two warnings, one written by \<open>check_duplicate_codes\<close> and one by the loop of
  \<open>load_translatable_dict\<close>. Two records sharing a code give two warnings.
\<close>

theorem duplicate_codes:
  assumes "load_json_file a path w = Inr (Some (JArray recs), w1)"
    and "list_all full_record recs"
  shows "load_translatable_dict a path False w =
     Inr (map (\<lambda>r. (record_code r, record_fields r)) (first_records recs {}),
          sum_list (map (\<lambda>r. length (record_fields r)) (first_records recs {})),
          w1\<lparr>out := out w1 @ map (\<lambda>c. DuplicateCode c path) (later_codes recs {})
                          @ map AlreadyHasEntry (later_codes recs {})\<rparr>)"
  using assms by (rule load_first_occurrences)







lemma compare_translations_frame:
  assumes "compare_translations a l p w = Inr (s, w')"
  shows "formatting_errors w' = formatting_errors w"
    and "validation_errors w \<le> validation_errors w'"
proof -
  from assms obtain en tot w1 i18n ti w3 ign tg w5 where
    l1: "load_translatable_dict a p False w = Inr (en, tot, w1)"
    and l2: "load_translatable_dict a (resolvePath l p) True
           (if tot = 0 then say a (NoTranslatableStrings (name l) p) 1 w1 else w1) =
         Inr (i18n, ti, w3)"
    and l3: "load_translatable_dict a (removesuffix (resolvePath l p) (py ''.json'') @ py ''.ignore'') False
           (w3\<lparr>out := check_extra_i18n_codes a i18n en (resolvePath l p) (out w3)\<rparr>) =
         Inr (ign, tg, w5)"
    and s: "s = (fst (compare_dicts a l p ign en tot i18n (out w5)))
           \<lparr>missing := flatten_effect (missing (fst (compare_dicts a l p ign en tot i18n (out w5)))),
            untranslated := flatten_effect (untranslated (fst (compare_dicts a l p ign en tot i18n (out w5))))\<rparr>"
    and w': "\<exists>wr. w' = w5\<lparr>out := wr\<rparr>"
    by (rule compare_translations_result)
  note f1 = load_translatable_dict_result(2,3)[OF l1]
  note f2 = load_translatable_dict_result(2,3)[OF l2]
  note f3 = load_translatable_dict_result(2,3)[OF l3]
  from w' obtain wr where "w' = w5\<lparr>out := wr\<rparr>" by blast
  then show "formatting_errors w' = formatting_errors w"
    and "validation_errors w \<le> validation_errors w'"
    using f1 f2 f3 by (auto split: if_splits)
qed

lemma check_translations_frame:
  "check_translations a jobs w = Inr w' \<Longrightarrow>
   formatting_errors w' = formatting_errors w \<and> validation_errors w \<le> validation_errors w'"
proof (induction jobs arbitrary: w)
  case Nil
  then show ?case by simp
next
  case (Cons job jobs)
  from Cons.prems obtain st w1 where
    c: "compare_translations a (fst job) (snd job) w = Inr (st, w1)"
    by (cases "compare_translations a (fst job) (snd job) w") auto
  then have "check_translations a jobs (w1\<lparr>out := print_short st a (out w1)\<rparr>) = Inr w'"
    using Cons.prems by simp
  from Cons.IH[OF this] compare_translations_frame[OF c] show ?case by simp
qed

text \<open>
  Claim C3, as amended. When \<open>main\<close> reaches \<open>sys.exit\<close>, the counter of formatting
  errors is 0, whatever the files held, and the exit status is 0 exactly when the
  counter of validation errors is 0: a file whose text differs from its canonical
  rendering is not counted and does not change the exit status.
\<close>

theorem exit_status_rule:
  assumes "main a i18n_files jobs w0 = Inr (code, w')"
  shows "formatting_errors w' = 0 \<and> (code = 0) = (validation_errors w' = 0)
         \<and> exit_status (main a i18n_files jobs w0) = code"
proof -
  let ?w = "w0\<lparr>formatting_errors := 0, validation_errors := 0\<rparr>"
  from assms obtain cycles wa where lc: "load_cycles a ?w = Inr (cycles, wa)"
    by (cases "load_cycles a ?w") (auto simp: main_def Let_def)
  from assms lc obtain packs wb where lp: "load_packs a cycles wa = Inr (packs, wb)"
    by (cases "load_packs a cycles wa") (auto simp: main_def Let_def)
  have fa: "formatting_errors wa = 0"
    using lc load_json_file_frame(1)[of a _ "say a (LoadingIndex (py ''cycle'')) 1 ?w" cycles wa]
    by (simp add: load_cycles_def)
  from lp obtain wb' where
    lj: "load_json_file a (path_join (base_path a) (py ''packs.json''))
           (say a (LoadingIndex (py ''pack'')) 1 wa) = Inr (packs, wb')" and "wb = wb'"
    by (auto simp: load_packs_def split: sum.splits)
  then have fb: "formatting_errors wb = 0"
    using load_json_file_frame(1)[OF lj] fa by simp
  let ?r = "if py_bool cycles \<and> py_bool packs then
              (if length i18n_files = 0 then check_translations a jobs wb
               else check_translations a jobs (say a (FileList i18n_files) 0 wb))
            else Inr (say a SkippingValidation 0 wb)"
  from assms lc lp obtain wc where r: "?r = Inr wc"
    by (cases ?r) (auto simp: main_def Let_def)
  have fc: "formatting_errors wc = 0"
    using r fb check_translations_frame[of a jobs wb wc]
      check_translations_frame[of a jobs "say a (FileList i18n_files) 0 wb" wc]
    by (auto split: if_splits)
  have res: "w' = wc\<lparr>out := out wc @ [Summary (formatting_errors wc) (validation_errors wc)]\<rparr>
      \<and> code = (if formatting_errors wc = 0 \<and> validation_errors wc = 0 then 0 else 1)"
    using assms lc lp r by (auto simp: main_def Let_def split: if_splits)
  show ?thesis using res fc assms by (simp add: exit_status_def)
qed

lemmas scan_numeral =
  scan_once.simps(2)[of "pred_numeral k", unfolded numeral_eq_Suc[symmetric]]
  parse_array.simps(2)[of "pred_numeral k", unfolded numeral_eq_Suc[symmetric]]
  parse_object.simps(2)[of "pred_numeral k", unfolded numeral_eq_Suc[symmetric]]
  for k

lemma replicate_numeral: "replicate (numeral k) x = x # replicate (pred_numeral k) x"
  by (simp add: numeral_eq_Suc)

lemmas parse_eval = json_loads_def scan_numeral skip_ws_def is_ws_def cons_char_def unescape_def
  py_def scan_int_def scan_nat_def is_digit_def digits_val_def

lemmas format_eval = format_json_def py_def encode_string_def escape_char_def newline_indent_def
  sub_indent_def tab_line_def replicate_numeral int_repr_def

lemma ex_loads: "json_loads ex_text = Some (JArray ex_records)"
  unfolding ex_text_def ex_records_def
  by (simp add: parse_eval
      cong: list.case_cong_weak option.case_cong_weak prod.case_cong_weak)

lemma ex_format:
  "format_json (JArray ex_records) \<noteq> ex_text
   \<and> \<not> contains (py ''<sup>'') (format_json (JArray ex_records))"
  unfolding ex_text_def ex_records_def
  by (simp add: format_eval)

lemma ex_paths:
  "resolvePath ex_locale ex_path \<noteq> ex_path"
  "removesuffix (resolvePath ex_locale ex_path) (py ''.json'') @ py ''.ignore'' \<noteq> ex_path"
  by (simp_all add: resolvePath_def path_join_def removesuffix_def ex_locale_def ex_path_def py_def)

lemma ex_load_json_file:
  "load_json_file ex_args ex_path ex_world = Inr (Some (JArray ex_records), ex_world)"
  using ex_loads ex_format
  by (simp add: load_json_file_def decode_file_def ex_world_def ex_files_def ex_args_def)

lemma ex_full: "list_all full_record ex_records"
  by (simp add: ex_records_def full_record_def get_code_def translatable_of_def
      translatable_fields_def py_def)

lemma ex_first:
  "map (\<lambda>r. (record_code r, record_fields r)) (first_records ex_records {}) =
     [(KStr (py ''02001''), [(py ''name'', JString (py ''A''))])]"
  "later_codes ex_records {} = [KStr (py ''02001'')]"
  "sum_list (map (\<lambda>r. length (record_fields r)) (first_records ex_records {})) = 1"
  by (simp_all add: ex_records_def record_code_def record_fields_def get_code_def
      translatable_of_def translatable_fields_def py_def)

theorem duplicate_codes_witness:
  "load_translatable_dict ex_args ex_path False ex_world =
     Inr ([(KStr (py ''02001''), [(py ''name'', JString (py ''A''))])], 1,
          ex_world\<lparr>out := ex_warnings\<rparr>)"
  using duplicate_codes[OF ex_load_json_file ex_full]
  by (simp add: ex_first ex_warnings_def ex_world_def)

lemma say_quiet: "verbose a < n \<Longrightarrow> say a m n w = w"
  by (simp add: say_def verbose_print_def)

lemma report_flattened_quiet:
  "verbose a = 0 \<Longrightarrow> report_flattened a h m wr = (flatten_effect m, wr)"
  by (simp add: report_flattened_def verbose_print_def flatten_effect_def)

lemma ex_load:
  "load_translatable_dict ex_args ex_path False ex_world =
     Inr ([(KStr (py ''02001''), [(py ''name'', JString (py ''A''))])], 1,
          ex_world\<lparr>out := ex_warnings\<rparr>)"
  using load_first_occurrences[OF ex_load_json_file ex_full]
  by (simp add: ex_first ex_warnings_def ex_world_def)

lemma ex_absent:
  "files ex_world (resolvePath ex_locale ex_path) = None"
  "files ex_world
     (removesuffix (resolvePath ex_locale ex_path) (py ''.json'') @ py ''.ignore'') = None"
  using ex_paths by (simp_all add: ex_world_def ex_files_def)

lemma ex_compare:
  "compare_translations ex_args ex_locale ex_path ex_world =
     Inr (ex_stats, ex_world\<lparr>out := ex_warnings\<rparr>)"
proof -
  have v: "verbose ex_args = 0" by (simp add: ex_args_def)
  have q: "say ex_args m (Suc 0) w = w" for m w by (rule say_quiet) (simp add: v)
  have fe: "flatten_effect [] = []" by (simp add: flatten_effect_def)
  have fl: "flatten_effect [(KStr (py ''02001''), [(py ''name'', JString (py ''A''))])] =
      [(KStr (py ''02001''),
        [(py ''name'', JString (py ''A'')), (py ''code'', JString (py ''02001''))])]"
    by (simp add: flatten_effect_def py_def)
  show ?thesis
    unfolding compare_translations_def
    by (simp add: Let_def ex_load q fe load_translatable_dict_absent ex_absent
        check_extra_i18n_codes_def compare_dicts_def report_flattened_quiet[OF v] fl ex_stats_def)
qed

text \<open>
  Claim C9 as stated fails: for a source file with one counted field and no localized
  file, the statistics returned have \<open>total = 1\<close> and \<open>translated = 0\<close>, while
  \<open>missing\<close> holds two pairs for the code, the field and the added \<open>code\<close> entry.
\<close>

theorem conservation_counterexample:
  "compare_translations ex_args ex_locale ex_path ex_world =
     Inr (ex_stats, ex_world\<lparr>out := ex_warnings\<rparr>)
   \<and> total ex_stats \<noteq>
       translated ex_stats + pairs (untranslated ex_stats) + pairs (missing ex_stats)"
  using ex_compare by (simp add: ex_stats_def pairs_def)

theorem conservation_witness:
  "total ex_stats = translated ex_stats + field_pairs (untranslated ex_stats)
       + field_pairs (missing ex_stats)
   \<and> total ex_stats = pairs [(KStr (py ''02001''), [(py ''name'', JString (py ''A''))])]"
  using conservation[OF ex_compare ex_load] by simp

theorem missing_file_witness:
  "translated ex_stats = 0 \<and> untranslated ex_stats = []
   \<and> missing ex_stats = flatten_effect [(KStr (py ''02001''), [(py ''name'', JString (py ''A''))])]
   \<and> drop_code (missing ex_stats) = [(KStr (py ''02001''), [(py ''name'', JString (py ''A''))])]
   \<and> total ex_stats = 1"
  by (rule missing_file[OF ex_compare ex_load ex_absent(1)])

text \<open>Evaluation of the example files.\<close>

lemma ex_sup_loads: "json_loads ex_sup_text = Some (JString (py ''<sup>''))"
  unfolding ex_sup_text_def
  by (simp add: parse_eval cong: list.case_cong_weak option.case_cong_weak prod.case_cong_weak)

lemma ex_sup_format: "contains (py ''<sup>'') (format_json (JString (py ''<sup>'')))"
  by (simp add: format_eval)

lemma ex_sup_load_json_file:
  "load_json_file ex_args (resolvePath ex_locale ex_path) (ex_world_sup\<lparr>out := wr\<rparr>) =
     Inr (None, ex_world_sup\<lparr>out := wr @ [InvalidContent (resolvePath ex_locale ex_path)],
                             validation_errors := 1\<rparr>)"
  using ex_sup_loads ex_sup_format
  by (simp add: load_json_file_def decode_file_def ex_world_sup_def ex_world_def say_def)

lemma ex_sup_source:
  "load_translatable_dict ex_args ex_path False ex_world_sup =
     Inr ([(KStr (py ''02001''), [(py ''name'', JString (py ''A''))])], 1,
          ex_world_sup\<lparr>out := ex_warnings\<rparr>)"
proof -
  have "load_json_file ex_args ex_path ex_world_sup = Inr (Some (JArray ex_records), ex_world_sup)"
    using ex_loads ex_format ex_paths
    by (simp add: load_json_file_def decode_file_def ex_world_sup_def ex_world_def ex_files_def
        ex_args_def)
  from load_first_occurrences[OF this ex_full] show ?thesis
    by (simp add: ex_first ex_warnings_def ex_world_sup_def ex_world_def)
qed

text \<open>
  Claim C6 as stated fails when the localized file yields no data: for a localized
  file whose content holds \<open><sup>\<close>, \<open>load_json_file\<close> returns \<open>None\<close>, and the loop
  of \<open>check_duplicate_codes\<close> over \<open>None\<close> raises \<open>TypeError\<close>; the comparator returns
  no statistics. When the localized file does not exist, the \<open>missing\<close> returned is
  not the source mapping as loaded: its inner dict holds the added \<open>code\<close> entry.
\<close>

theorem missing_file_counterexample:
  "load_json_file ex_args (resolvePath ex_locale ex_path) ex_world_sup =
     Inr (None, ex_world_sup\<lparr>out := [InvalidContent (resolvePath ex_locale ex_path)],
                             validation_errors := 1\<rparr>)
   \<and> compare_translations ex_args ex_locale ex_path ex_world_sup = Inl TypeError
   \<and> files ex_world (resolvePath ex_locale ex_path) = None
   \<and> compare_translations ex_args ex_locale ex_path ex_world =
       Inr (ex_stats, ex_world\<lparr>out := ex_warnings\<rparr>)
   \<and> missing ex_stats \<noteq> [(KStr (py ''02001''), [(py ''name'', JString (py ''A''))])]"
proof -
  have m: "missing ex_stats \<noteq> [(KStr (py ''02001''), [(py ''name'', JString (py ''A''))])]"
    by (simp add: ex_stats_def)
  have v: "verbose ex_args = 0" by (simp add: ex_args_def)
  have q: "say ex_args m (Suc 0) w = w" for m w by (rule say_quiet) (simp add: v)
  have acc: "check_file_access (ex_world_sup\<lparr>out := wr\<rparr>) (resolvePath ex_locale ex_path)" for wr
    by (simp add: check_file_access_def ex_world_sup_def)
  have l: "load_translatable_dict ex_args (resolvePath ex_locale ex_path) True
             (ex_world_sup\<lparr>out := ex_warnings\<rparr>) = Inl TypeError"
    by (simp add: load_translatable_dict_def acc ex_sup_load_json_file check_duplicate_codes_def)
  have c: "compare_translations ex_args ex_locale ex_path ex_world_sup = Inl TypeError"
    unfolding compare_translations_def by (simp add: Let_def ex_sup_source q l)
  have "ex_world_sup\<lparr>out := []\<rparr> = ex_world_sup" by (simp add: ex_world_sup_def ex_world_def)
  with ex_sup_load_json_file[of "[]"] c m ex_absent(1) ex_compare show ?thesis by simp
qed








text \<open>
  Claim C8 as stated fails: loading a list of two records that share the code
  \<open>02001\<close> writes two warnings, not one.
\<close>

theorem duplicate_codes_counterexample:
  "(case load_translatable_dict ex_args ex_path False ex_world of
      Inl e \<Rightarrow> [] | Inr r \<Rightarrow> out (snd (snd r))) = ex_warnings
   \<and> length ex_warnings = 2"
  by (simp add: ex_load ex_warnings_def)

lemma load_json_file_plain:
  assumes "files w path = Some (Utf8 raw)" and "json_loads raw = Some x"
    and "\<not> contains (py ''<sup>'') (format_json x)" and "\<not> fix_formatting a"
  shows "load_json_file a path w = Inr (Some x, w)"
  using assms by (simp add: load_json_file_def decode_file_def Let_def)

lemma load_json_file_invalid_content:
  assumes "files w path = Some (Utf8 raw)" and "json_loads raw = Some x"
    and "contains (py ''<sup>'') (format_json x)"
  shows "load_json_file a path w =
     Inr (None, w\<lparr>out := out w @ [InvalidContent path], validation_errors := validation_errors w + 1\<rparr>)"
  using assms by (simp add: load_json_file_def decode_file_def Let_def say_def)

lemma ex_empty_loads: "json_loads (py ''[]'') = Some (JArray [])"
  by (simp add: parse_eval cong: list.case_cong_weak option.case_cong_weak prod.case_cong_weak)

lemma ex_empty_format:
  "format_json (JArray []) \<noteq> py ''[]''" "\<not> contains (py ''<sup>'') (format_json (JArray []))"
  by (simp_all add: format_eval)

lemma ex_index_paths:
  "path_join (base_path ex_args) (py ''cycles.json'') = py ''./cycles.json''"
  "path_join (base_path ex_args) (py ''packs.json'') = py ''./packs.json''"
  by (simp_all add: path_join_def ex_args_def py_def)

lemma ex_main_fields:
  "files (ex_main_world t) (py ''./cycles.json'') = Some (Utf8 t)"
  "files (ex_main_world t) (py ''./packs.json'') = Some (Utf8 (py ''[]''))"
  "formatting_errors (ex_main_world t) = 0"
  "validation_errors (ex_main_world t) = 0"
  "out (ex_main_world t) = []"
  by (simp_all add: ex_main_world_def ex_world_def py_def)

lemma ex_args_fields: "verbose ex_args = 0" "\<not> fix_formatting ex_args"
  by (simp_all add: ex_args_def)

lemma ex_main_packs:
  assumes "files w (py ''./packs.json'') = Some (Utf8 (py ''[]''))"
  shows "load_packs ex_args cycles w = Inr (Some (JArray []), w)"
proof -
  have q: "say ex_args m (Suc 0) w' = w'" for m w'
    by (rule say_quiet) (simp add: ex_args_fields)
  have "load_json_file ex_args (py ''./packs.json'') w = Inr (Some (JArray []), w)"
    using assms ex_empty_loads ex_empty_format(2) ex_args_fields(2) by (rule load_json_file_plain)
  then show ?thesis by (simp add: load_packs_def ex_index_paths q)
qed

lemma ex_main_noncanonical:
  "main ex_args [] [] (ex_main_world (py ''[]'')) =
     Inr (0, ex_main_world (py ''[]'')\<lparr>out := [SkippingValidation, Summary 0 0]\<rparr>)"
proof -
  have q: "say ex_args m (Suc 0) w' = w'" for m w'
    by (rule say_quiet) (simp add: ex_args_fields)
  have w: "ex_main_world (py ''[]'')\<lparr>formatting_errors := 0, validation_errors := 0\<rparr> =
           ex_main_world (py ''[]'')"
    by (simp add: ex_main_world_def ex_world_def)
  have "load_json_file ex_args (py ''./cycles.json'') (ex_main_world (py ''[]'')) =
      Inr (Some (JArray []), ex_main_world (py ''[]''))"
    using ex_main_fields(1) ex_empty_loads ex_empty_format(2) ex_args_fields(2)
    by (rule load_json_file_plain)
  then have c: "load_cycles ex_args (ex_main_world (py ''[]'')) =
      Inr (Some (JArray []), ex_main_world (py ''[]''))"
    by (simp add: load_cycles_def ex_index_paths q)
  have p: "load_packs ex_args (Some (JArray [])) (ex_main_world (py ''[]'')) =
      Inr (Some (JArray []), ex_main_world (py ''[]''))"
    using ex_main_fields(2) by (rule ex_main_packs)
  show ?thesis
    by (simp add: main_def Let_def w c p say_def ex_main_fields)
qed

text \<open>
  Claim C3 as stated fails: \<open>cycles.json\<close> holding \<open>[]\<close> without the final newline
  differs from its canonical rendering, and the run ends with exit status 0.
\<close>

theorem exit_status_counterexample:
  "files (ex_main_world (py ''[]'')) (py ''./cycles.json'') = Some (Utf8 (py ''[]''))
   \<and> json_loads (py ''[]'') = Some (JArray [])
   \<and> format_json (JArray []) \<noteq> py ''[]''
   \<and> exit_status (main ex_args [] [] (ex_main_world (py ''[]''))) = 0"
  using ex_empty_loads ex_empty_format(1) ex_main_fields(1)
  by (simp add: ex_main_noncanonical exit_status_def)

lemma ex_main_invalid:
  "main ex_args [] [] (ex_main_world ex_sup_text) =
     Inr (1, ex_main_world ex_sup_text
               \<lparr>out := [InvalidContent (py ''./cycles.json''), SkippingValidation, Summary 0 1],
                validation_errors := 1\<rparr>)"
proof -
  have q: "say ex_args m (Suc 0) w' = w'" for m w'
    by (rule say_quiet) (simp add: ex_args_fields)
  have w: "ex_main_world ex_sup_text\<lparr>formatting_errors := 0, validation_errors := 0\<rparr> =
           ex_main_world ex_sup_text"
    by (simp add: ex_main_world_def ex_world_def)
  let ?w1 = "ex_main_world ex_sup_text
               \<lparr>out := [InvalidContent (py ''./cycles.json'')], validation_errors := 1\<rparr>"
  have "load_json_file ex_args (py ''./cycles.json'') (ex_main_world ex_sup_text) = Inr (None, ?w1)"
    using load_json_file_invalid_content[OF ex_main_fields(1) ex_sup_loads ex_sup_format, of ex_args]
    by (simp add: ex_main_fields)
  then have c: "load_cycles ex_args (ex_main_world ex_sup_text) = Inr (None, ?w1)"
    by (simp add: load_cycles_def ex_index_paths q)
  have p: "load_packs ex_args None ?w1 = Inr (Some (JArray []), ?w1)"
    by (rule ex_main_packs) (simp add: ex_main_fields)
  show ?thesis
    using p by (simp add: main_def Let_def w c say_def ex_main_fields)
qed

theorem exit_status_rule_witness:
  "formatting_errors (ex_main_world ex_sup_text
               \<lparr>out := [InvalidContent (py ''./cycles.json''), SkippingValidation, Summary 0 1],
                validation_errors := 1\<rparr>) = 0
   \<and> exit_status (main ex_args [] [] (ex_main_world ex_sup_text)) = 1"
  using exit_status_rule[OF ex_main_invalid] by simp

section \<open>Properties of the formatter\<close>

lemma newline_indent_spaces: "newline_indent l = 10 # spaces l"
  by (simp add: newline_indent_def spaces_def)

lemma render_append [simp]: "render ind (ps @ qs) = render ind ps @ render ind qs"
  by (induction ind ps rule: render.induct) simp_all

lemma join_render:
  "join (44 # 10 # ind l) (map (render ind) pss) = render ind (sep_pieces l pss)"
  by (induction l pss rule: sep_pieces.induct) simp_all

lemma sort_key_map_snd:
  "sort_key fst (map (\<lambda>kv. (fst kv, f (snd kv))) xs) =
   map (\<lambda>kv. (fst kv, f (snd kv))) (sort_key fst xs)"
proof (induction xs)
  case Nil
  then show ?case by simp
next
  case (Cons x xs)
  have ins: "insort_key fst (fst x, f (snd x)) (map (\<lambda>kv. (fst kv, f (snd kv))) ys) =
             map (\<lambda>kv. (fst kv, f (snd kv))) (insort_key fst x ys)" for ys
    by (induction ys) simp_all
  show ?case using Cons.IH by (simp add: ins)
qed

lemma dumps_list_map: "dumps_list l xs = map (dumps l) xs"
  by (induction xs) simp_all

lemma dumps_items_map: "dumps_items l a = map (\<lambda>kv. (fst kv, dumps l (snd kv))) a"
  by (induction a) simp_all

lemma toks_list_map: "toks_list l xs = map (toks l) xs"
  by (induction xs) simp_all

lemma toks_items_map: "toks_items l a = map (\<lambda>kv. (fst kv, toks l (snd kv))) a"
  by (induction a) simp_all

lemma set_sort_key [simp]: "set (sort_key f xs) = set xs"
  by simp

lemma dumps_render: "dumps l x = render spaces (toks l x)"
proof (induction x arbitrary: l)
  case (JArray xs)
  have "map (dumps (l + 1)) xs = map (render spaces) (map (toks (l + 1)) xs)"
    using JArray by simp
  then have "join (44 # newline_indent (l + 1)) (dumps_list (l + 1) xs) =
      render spaces (sep_pieces (l + 1) (toks_list (l + 1) xs))"
    using join_render[of spaces "l + 1" "map (toks (l + 1)) xs"]
    by (simp only: dumps_list_map toks_list_map newline_indent_spaces)
  then show ?case by (simp add: newline_indent_spaces py_def)
next
  case (JObject a)
  have iv: "dumps (l + 1) (snd kv) = render spaces (toks (l + 1) (snd kv))" if "kv \<in> set a" for kv
    using JObject that by (cases kv) (auto simp: snds.simps)
  let ?si = "sort_key fst a"
  have d: "sort_key fst (dumps_items (l + 1) a) = map (\<lambda>kv. (fst kv, dumps (l + 1) (snd kv))) ?si"
    by (simp add: dumps_items_map sort_key_map_snd)
  have t: "sort_key fst (toks_items (l + 1) a) = map (\<lambda>kv. (fst kv, toks (l + 1) (snd kv))) ?si"
    by (simp add: toks_items_map sort_key_map_snd)
  have "map (\<lambda>kr. encode_string (fst kr) @ [58, 32] @ snd kr)
          (sort_key fst (dumps_items (l + 1) a)) =
        map (render spaces)
          (map (\<lambda>kp. Tok (encode_string (fst kp) @ [58, 32]) # snd kp)
             (sort_key fst (toks_items (l + 1) a)))"
    unfolding d t using iv by (simp add: comp_def)
  then have "join (44 # newline_indent (l + 1))
        (map (\<lambda>kr. encode_string (fst kr) @ [58, 32] @ snd kr)
          (sort_key fst (dumps_items (l + 1) a))) =
      render spaces (sep_pieces (l + 1)
          (map (\<lambda>kp. Tok (encode_string (fst kp) @ [58, 32]) # snd kp)
             (sort_key fst (toks_items (l + 1) a))))"
    by (simp only: newline_indent_spaces join_render)
  then show ?case by (simp add: newline_indent_spaces py_def)
qed simp_all

subsection \<open>Replacement leaves a text without the pattern unchanged\<close>

lemma replace_absent:
  "\<not> contains (c # old) s \<Longrightarrow> replace (c # old) new s = s"
  by (induction s) auto

subsection \<open>Lines\<close>

lemma split_lines_nonempty [simp]: "split_lines s \<noteq> []"
  by (induction s) (auto split: list.splits)

lemma split_lines_prefix:
  "10 \<notin> set t \<Longrightarrow>
   split_lines (t @ s) = (t @ hd (split_lines s)) # tl (split_lines s)"
proof (induction t)
  case Nil
  then show ?case by simp
next
  case (Cons c t)
  then show ?case by (simp split: list.splits)
qed

lemma join_prefix: "ls \<noteq> [] \<Longrightarrow> join sep ((t @ hd ls) # tl ls) = t @ join sep ls"
  by (cases ls; cases "tl ls") auto

lemma cont_tok: "10 \<notin> set t \<Longrightarrow> cont i (t @ s) = t @ cont i s"
  using join_prefix[of "hd (split_lines s) # map (tab_line i) (tl (split_lines s))" "[10]" t]
  by (simp add: cont_def split_lines_prefix)

lemma join_cons_nonempty: "ls \<noteq> [] \<Longrightarrow> join sep (l # ls) = l @ sep @ join sep ls"
  by (cases ls) simp_all

lemma cont_newline: "cont i (10 # s) = 10 # sub_indent i s"
  by (simp add: cont_def sub_indent_def join_cons_nonempty)

lemma tab_line_append:
  assumes "0 < i" and "c \<noteq> 32"
  shows "tab_line i (w @ c # l) = tab_line i w @ c # l"
proof (cases "take (4 * i) w = replicate (4 * i) 32")
  case True
  then have len: "4 * i \<le> length w"
    by (metis length_replicate length_take min.cobounded1 min_def nat_le_linear take_all)
  then show ?thesis using True by (simp add: tab_line_def)
next
  case False
  have "take (4 * i) (w @ c # l) \<noteq> replicate (4 * i) 32"
  proof (cases "4 * i \<le> length w")
    case True
    then show ?thesis using False by simp
  next
    case short: False
    then have "c \<in> set (take (4 * i) (w @ c # l))"
      by (cases "4 * i - length w") auto
    then show ?thesis using assms(2) by (metis in_set_replicate)
  qed
  then show ?thesis using False by (simp add: tab_line_def)
qed

lemma sub_indent_line:
  assumes "0 < i" and "c \<noteq> 32" and "c \<noteq> 10" and "10 \<notin> set w"
  shows "sub_indent i (w @ c # s) = tab_line i w @ cont i (c # s)"
proof -
  obtain l ls where sl: "split_lines (c # s) = l # ls"
    using split_lines_nonempty[of "c # s"] by (metis list.exhaust)
  then obtain l' where l: "l = c # l'" using assms(3) by (auto split: list.splits)
  have "split_lines (w @ c # s) = (w @ l) # ls"
    using split_lines_prefix[OF assms(4), of "c # s"] sl by simp
  then have "sub_indent i (w @ c # s) = join [10] ((tab_line i w @ l) # map (tab_line i) ls)"
    using tab_line_append[OF assms(1,2), of w l'] l by (simp add: sub_indent_def)
  also have "\<dots> = tab_line i w @ join [10] (l # map (tab_line i) ls)"
    using join_prefix[of "l # map (tab_line i) ls" "[10]" "tab_line i w"] by simp
  finally show ?thesis using sl by (simp add: cont_def)
qed

subsection \<open>Well-formed piece lists\<close>

lemma wf_pieces_append:
  "wf_pieces ps \<Longrightarrow> wf_pieces qs \<Longrightarrow> starts_tok qs \<Longrightarrow> wf_pieces (ps @ qs)"
proof (induction ps rule: wf_pieces.induct)
  case 1
  then show ?case by simp
next
  case (2 t ps)
  then show ?case by simp
next
  case (3 d ps)
  then show ?case by (cases ps) (auto split: piece.splits list.splits)
qed

lemma starts_tok_append: "starts_tok ps \<Longrightarrow> starts_tok (ps @ qs)"
  by (cases ps rule: starts_tok.cases) simp_all

lemma cont_render:
  assumes "0 < i" and "\<forall>d. 10 \<notin> set (ind d)"
  shows "wf_pieces ps \<Longrightarrow> cont i (render ind ps) = render (\<lambda>d. tab_line i (ind d)) ps"
proof (induction ps rule: wf_pieces.induct)
  case 1
  then show ?case by (simp add: cont_def)
next
  case (2 t ps)
  then show ?case by (simp add: cont_tok tok_ok_def)
next
  case (3 d ps)
  from "3.prems" obtain t qs where ps: "ps = Tok t # qs" and wf: "wf_pieces ps"
    by (auto split: list.splits piece.splits)
  from wf ps obtain c t' where t: "t = c # t'" and c: "c \<noteq> 32" "c \<noteq> 10"
    by (cases t) (auto simp: tok_ok_def)
  have "cont i (render ind (Newline d # ps)) = 10 # sub_indent i (ind d @ c # (t' @ render ind qs))"
    by (simp add: cont_newline ps t)
  also have "\<dots> = 10 # tab_line i (ind d) @ cont i (c # (t' @ render ind qs))"
    using sub_indent_line[OF assms(1) c] assms(2) by simp
  also have "\<dots> = 10 # tab_line i (ind d) @ render (\<lambda>d. tab_line i (ind d)) ps"
    using "3.IH"[OF ps refl wf] by (simp add: ps t)
  finally show ?case by simp
qed

lemma sub_indent_render:
  assumes "0 < i" and "\<forall>d. 10 \<notin> set (ind d)" and "wf_pieces ps" and "starts_tok ps"
  shows "sub_indent i (render ind ps) = render (\<lambda>d. tab_line i (ind d)) ps"
proof -
  from assms(4) obtain t qs where ps: "ps = Tok t # qs" by (cases ps rule: starts_tok.cases) auto
  with assms(3) obtain c t' where t: "t = c # t'" and c: "c \<noteq> 32" "c \<noteq> 10"
    by (cases t) (auto simp: tok_ok_def)
  have e: "tab_line i [] = []" using assms(1) by (simp add: tab_line_def)
  have "sub_indent i (render ind ps) = cont i (render ind ps)"
    using sub_indent_line[OF assms(1) c, of "[]" "t' @ render ind qs"] e by (simp add: ps t)
  then show ?thesis using cont_render[OF assms(1,2,3)] by simp
qed

lemma wf_pieces_app: "wf_pieces ps \<Longrightarrow> wf_pieces qs \<Longrightarrow> wf_pieces (ps @ qs)"
proof (induction ps rule: wf_pieces.induct)
  case 1
  then show ?case by simp
next
  case (2 t ps)
  then show ?case by simp
next
  case (3 d ps)
  then show ?case by (cases ps) (auto split: piece.splits list.splits)
qed

lemma wf_pieces_open:
  "wf_pieces (Tok t # Newline d # qs) = (tok_ok t \<and> starts_tok qs \<and> wf_pieces qs)"
  by (cases qs rule: starts_tok.cases) simp_all

lemma hex_digit_ge: "48 \<le> hex_digit d"
  by (simp add: hex_digit_def)

lemma escape_char_no_newline: "10 \<notin> set (escape_char c)"
  using hex_digit_ge[of "c div 16"] hex_digit_ge[of "c mod 16"]
  by (auto simp: escape_char_def)

lemma encode_string_ok: "tok_ok (encode_string s)" "tok_ok (encode_string s @ [58, 32])"
  using escape_char_no_newline by (auto simp: tok_ok_def encode_string_def)

lemma digits_digits: "digits n \<noteq> [] \<and> list_all is_digit (digits n)"
proof (induction n rule: digits.induct)
  case (1 n)
  show ?case
  proof (cases "n < 10")
    case True
    then show ?thesis by (subst digits.simps, subst digits.simps) (simp add: is_digit_def)
  next
    case False
    have "is_digit (48 + n mod 10)" by (simp add: is_digit_def)
    then show ?thesis using False "1.IH" by (subst digits.simps, subst digits.simps) simp
  qed
qed

lemma digits_hd: "\<exists>c t. digits n = c # t \<and> is_digit c"
  using digits_digits[of n] by (cases "digits n") auto

lemma int_repr_ok: "tok_ok (int_repr i)"
proof -
  have d: "10 \<notin> set (digits n)" "hd (digits n) \<noteq> 32" "digits n \<noteq> []" for n
    using digits_digits[of n] digits_hd[of n]
    by (auto simp: list_all_iff is_digit_def)
  show ?thesis using d by (auto simp: tok_ok_def int_repr_def)
qed

lemma toks_first: "\<exists>c t ps. toks l x = Tok (c # t) # ps \<and> value_start c"
proof (cases x)
  case (JInt i)
  obtain c t where "digits (nat (- i)) = c # t" "is_digit c" using digits_hd by blast
  moreover obtain c' t' where "digits (nat i) = c' # t'" "is_digit c'" using digits_hd by blast
  ultimately show ?thesis using JInt by (auto simp: int_repr_def value_start_def)
qed (auto simp: value_start_def py_def encode_string_def)

lemma toks_starts: "starts_tok (toks l x)"
  using toks_first[of l x] by auto

lemma sep_pieces_wf:
  "(\<forall>ps\<in>set pss. wf_pieces ps \<and> starts_tok ps) \<Longrightarrow>
   wf_pieces (sep_pieces l pss) \<and> (pss \<noteq> [] \<longrightarrow> starts_tok (sep_pieces l pss))"
proof (induction l pss rule: sep_pieces.induct)
  case (1 l)
  then show ?case by simp
next
  case (2 l ps)
  then show ?case by simp
next
  case (3 l ps qs rest)
  have r: "wf_pieces (sep_pieces l (qs # rest))" "starts_tok (sep_pieces l (qs # rest))"
    using 3 by simp_all
  have "wf_pieces (Tok [44] # Newline l # sep_pieces l (qs # rest))"
    using r by (simp only: wf_pieces_open) (simp add: tok_ok_def)
  then have "wf_pieces (ps @ Tok [44] # Newline l # sep_pieces l (qs # rest))"
    using "3.prems" by (intro wf_pieces_app) simp_all
  moreover have "starts_tok (ps @ Tok [44] # Newline l # sep_pieces l (qs # rest))"
    using "3.prems" by (intro starts_tok_append) simp
  ultimately show ?case by simp
qed

lemma toks_wf: "wf_pieces (toks l x)"
proof (induction x arbitrary: l)
  case (JArray xs)
  show ?case
  proof (cases "xs = []")
    case True
    then show ?thesis by (simp add: tok_ok_def py_def)
  next
    case False
    have "\<forall>ps\<in>set (toks_list (l + 1) xs). wf_pieces ps \<and> starts_tok ps"
      using JArray toks_starts by (auto simp: toks_list_map)
    from sep_pieces_wf[OF this, of "l + 1"] False
    have w: "wf_pieces (sep_pieces (l + 1) (toks_list (l + 1) xs))"
      and s: "starts_tok (sep_pieces (l + 1) (toks_list (l + 1) xs))"
      by (auto simp: toks_list_map)
    have e: "wf_pieces [Newline l, Tok [93]]" by (simp add: tok_ok_def)
    have "wf_pieces (Tok [91] # Newline (l + 1) #
        (sep_pieces (l + 1) (toks_list (l + 1) xs) @ [Newline l, Tok [93]]))"
      unfolding wf_pieces_open
      using wf_pieces_app[OF w e] starts_tok_append[OF s] by (simp add: tok_ok_def)
    then show ?thesis using False by simp
  qed
next
  case (JObject a)
  show ?case
  proof (cases "a = []")
    case True
    then show ?thesis by (simp add: tok_ok_def py_def)
  next
    case False
    let ?its = "map (\<lambda>kp. Tok (encode_string (fst kp) @ [58, 32]) # snd kp)
                  (sort_key fst (toks_items (l + 1) a))"
    have "\<forall>kp\<in>set (toks_items (l + 1) a). wf_pieces (snd kp)"
      using JObject by (auto simp: toks_items_map snds.simps)
    then have al: "\<forall>ps\<in>set ?its. wf_pieces ps \<and> starts_tok ps"
      using encode_string_ok(2) by auto
    have "length ?its = length a" by (simp add: toks_items_map)
    then have ne: "?its \<noteq> []" using False by (metis length_0_conv)
    from sep_pieces_wf[OF al, of "l + 1"] ne
    have w: "wf_pieces (sep_pieces (l + 1) ?its)"
      and s: "starts_tok (sep_pieces (l + 1) ?its)"
      by simp_all
    have e: "wf_pieces [Newline l, Tok [125]]" by (simp add: tok_ok_def)
    have "wf_pieces (Tok [123] # Newline (l + 1) # (sep_pieces (l + 1) ?its @ [Newline l, Tok [125]]))"
      unfolding wf_pieces_open
      using wf_pieces_app[OF w e] starts_tok_append[OF s] by (simp add: tok_ok_def)
    then show ?thesis using False by simp
  qed
qed (simp_all add: encode_string_ok int_repr_ok, simp_all add: tok_ok_def py_def)

subsection \<open>Decoding what the encoder wrote: whitespace, strings, integers\<close>

lemma skip_ws_app:
  "list_all is_ws w \<Longrightarrow> \<not> is_ws c \<Longrightarrow> skip_ws (w @ c # s) = c # s"
  by (induction w) (simp_all add: skip_ws_def)

lemma skip_ws_stop: "\<not> is_ws c \<Longrightarrow> skip_ws (c # s) = c # s"
  by (simp add: skip_ws_def)

lemma hex_val_digit: "d < 16 \<Longrightarrow> hex_val (hex_digit d) = Some d"
  by (auto simp: hex_val_def hex_digit_def)

lemma scanstring_escape: "scanstring (escape_char c @ m) = cons_char c (scanstring m)"
proof -
  consider "c = 92" | "c = 34" | "c = 8" | "c = 12" | "c = 10" | "c = 13" | "c = 9"
    | "c < 32" "c \<notin> {8, 12, 10, 13, 9}" | "32 \<le> c" "c \<noteq> 92" "c \<noteq> 34"
    by fastforce
  then show ?thesis
  proof cases
    case 8
    have h: "hex_val 48 = Some 0" by (simp add: hex_val_def)
    have d1: "hex_val (hex_digit (c div 16)) = Some (c div 16)"
      using 8(1) by (intro hex_val_digit) simp
    have d2: "hex_val (hex_digit (c mod 16)) = Some (c mod 16)"
      by (intro hex_val_digit) simp
    have e: "escape_char c = [92, 117, 48, 48, hex_digit (c div 16), hex_digit (c mod 16)]"
      using 8 by (auto simp: escape_char_def)
    have v: "16 * (c div 16) + c mod 16 = c" by simp
    show ?thesis
      unfolding e using 8(1) by (simp add: h d1 d2 v)
  next
    case 9
    then have e: "escape_char c = [c]" by (auto simp: escape_char_def)
    show ?thesis unfolding e using 9 by simp
  qed (simp_all add: escape_char_def unescape_def)
qed

lemma scanstring_encoded:
  "scanstring (concat (map escape_char s) @ 34 # rest) = Some (s, rest)"
  by (induction s) (simp_all add: scanstring_escape cons_char_def)

lemma takeWhile_digits:
  "list_all is_digit ds \<Longrightarrow> ok_rest rest \<Longrightarrow>
   takeWhile is_digit (ds @ rest) = ds \<and> dropWhile is_digit (ds @ rest) = rest"
  by (induction ds) (auto simp: ok_rest_def split: list.splits)

lemma digits_val_snoc: "digits_val (ds @ [c]) = 10 * digits_val ds + (c - 48)"
  by (simp add: digits_val_def)

lemma digits_val_digits: "digits_val (digits n) = n"
proof (induction n rule: digits.induct)
  case (1 n)
  show ?case
  proof (cases "n < 10")
    case True
    then show ?thesis by (subst digits.simps) (simp add: digits_val_def)
  next
    case False
    then have "digits_val (digits n) = 10 * digits_val (digits (n div 10)) + n mod 10"
      by (subst digits.simps) (simp add: digits_val_snoc)
    then show ?thesis using False "1.IH" by simp
  qed
qed

lemma digits_hd_pos: "0 < n \<Longrightarrow> hd (digits n) \<noteq> 48"
proof (induction n rule: digits.induct)
  case (1 n)
  show ?case
  proof (cases "n < 10")
    case True
    then show ?thesis using "1.prems" by (subst digits.simps) simp
  next
    case False
    then have "0 < n div 10" by simp
    then have "hd (digits (n div 10)) \<noteq> 48" using False "1.IH" by simp
    moreover have "digits (n div 10) \<noteq> []" using digits_digits by simp
    ultimately show ?thesis using False by (subst digits.simps) simp
  qed
qed

lemma scan_nat_digits: "ok_rest rest \<Longrightarrow> scan_nat (digits n @ rest) = Some (n, rest)"
proof (cases "n = 0")
  case True
  assume "ok_rest rest"
  have "digits 0 = [48]" by (subst digits.simps) simp
  then show ?thesis using True by (simp add: scan_nat_def)
next
  case False
  assume ok: "ok_rest rest"
  obtain c t where d: "digits n = c # t" and c: "is_digit c" using digits_hd by blast
  have "c \<noteq> 48" using digits_hd_pos[of n] False d by simp
  moreover have "takeWhile is_digit (digits n @ rest) = digits n"
    and "dropWhile is_digit (digits n @ rest) = rest"
    using takeWhile_digits[OF _ ok, of "digits n"] digits_digits[of n] by simp_all
  ultimately show ?thesis
    using c d digits_val_digits[of n] by (simp add: scan_nat_def)
qed

lemma scan_int_repr: "ok_rest rest \<Longrightarrow> scan_int (int_repr i @ rest) = Some (i, rest)"
proof (cases "i < 0")
  case True
  assume "ok_rest rest"
  then show ?thesis using True scan_nat_digits[of rest "nat (- i)"]
    by (simp add: scan_int_def int_repr_def)
next
  case False
  assume ok: "ok_rest rest"
  obtain c t where d: "digits (nat i) = c # t" and c: "is_digit c" using digits_hd by blast
  have "c \<noteq> 45" using c by (auto simp: is_digit_def)
  then show ?thesis
    using False d scan_nat_digits[OF ok, of "nat i"] by (simp add: scan_int_def int_repr_def)
qed

lemma canon_list_map: "canon_list xs = map canon xs"
  by (induction xs) simp_all

lemma canon_items_map: "canon_items a = map (\<lambda>kv. (fst kv, canon (snd kv))) a"
  by (induction a) simp_all

lemma need_items_sum: "need_items a = sum_list (map (\<lambda>kv. 1 + need (snd kv)) a)"
  by (induction a) simp_all

lemma sum_list_insort: "sum_list (map f (insort_key k x xs)) = f x + sum_list (map (f::'a \<Rightarrow> nat) xs)"
  by (induction xs) simp_all

lemma sum_list_sort: "sum_list (map f (sort_key k xs)) = sum_list (map (f::'a \<Rightarrow> nat) xs)"
  by (induction xs) (simp_all add: sum_list_insort)

lemma need_items_sort: "need_items (sort_key fst a) = need_items a"
  by (simp add: need_items_sum sum_list_sort)

lemma value_start_props: "value_start c \<Longrightarrow> \<not> is_ws c \<and> c \<noteq> 93 \<and> c \<noteq> 125 \<and> c \<noteq> 65279"
  by (auto simp: value_start_def is_ws_def is_digit_def)

lemma render_toks_first: "\<exists>c t. render ind (toks l x) = c # t \<and> value_start c"
  using toks_first[of l x] by auto

text \<open>The property of one value that the induction carries.\<close>

lemma reads_backD:
  "reads_back ind x \<Longrightarrow> need x \<le> n \<Longrightarrow> ok_rest rest \<Longrightarrow>
   scan_once n (render ind (toks l x) @ rest) = Some (canon x, rest)"
  by (simp add: reads_back_def)

lemma ok_rest_simps [simp]: "ok_rest (10 # s)" "ok_rest (44 # s)" "ok_rest []"
  by (simp_all add: ok_rest_def is_digit_def)

lemma parse_array_elems:
  assumes ws: "\<forall>d. list_all is_ws (ind d)"
  shows "xs \<noteq> [] \<Longrightarrow> \<forall>x\<in>set xs. reads_back ind x \<Longrightarrow> need_list xs \<le> n \<Longrightarrow>
    parse_array n acc
      (render ind (sep_pieces (Suc l) (map (toks (Suc l)) xs)) @ 10 # ind l @ 93 # rest) =
    Some (JArray (acc @ map canon xs), rest)"
proof (induction xs arbitrary: n acc)
  case Nil
  then show ?case by simp
next
  case (Cons x xs)
  from Cons.prems(3) obtain n' where n: "n = Suc n'" and nx: "need x \<le> n'"
    and nr: "need_list xs \<le> n'"
    by (cases n) auto
  have rb: "reads_back ind x" using Cons.prems(2) by simp
  have w93: "skip_ws (10 # ind l @ 93 # rest) = 93 # rest"
    using skip_ws_app[of "10 # ind l" 93 rest] ws by (simp add: is_ws_def)
  show ?case
  proof (cases xs)
    case Nil
    have "scan_once n' (render ind (toks (Suc l) x) @ 10 # ind l @ 93 # rest) =
        Some (canon x, 10 # ind l @ 93 # rest)"
      using reads_backD[OF rb nx] by simp
    then show ?thesis using Nil n w93 by simp
  next
    case (Cons y ys)
    let ?tail = "render ind (sep_pieces (Suc l) (map (toks (Suc l)) xs)) @ 10 # ind l @ 93 # rest"
    have s1: "scan_once n' (render ind (toks (Suc l) x) @ 44 # 10 # ind (Suc l) @ ?tail) =
        Some (canon x, 44 # 10 # ind (Suc l) @ ?tail)"
      using reads_backD[OF rb nx] by simp
    obtain c t where ft: "render ind (toks (Suc l) y) = c # t" and vs: "value_start c"
      using render_toks_first by blast
    then have "\<exists>t'. ?tail = c # t'" using Cons by (cases ys) simp_all
    then obtain t' where tl: "?tail = c # t'" by blast
    have w: "skip_ws (10 # ind (Suc l) @ ?tail) = ?tail"
      unfolding tl using skip_ws_app[of "10 # ind (Suc l)" c t'] ws value_start_props[OF vs]
      by (simp add: is_ws_def)
    have c44: "skip_ws (44 # 10 # ind (Suc l) @ ?tail) = 44 # 10 # ind (Suc l) @ ?tail"
      by (rule skip_ws_stop) (simp add: is_ws_def)
    have ih: "parse_array n' (acc @ [canon x]) ?tail =
        Some (JArray ((acc @ [canon x]) @ map canon xs), rest)"
      using Cons.IH[of n' "acc @ [canon x]"] Cons.prems(2) nr Cons by simp
    have "render ind (sep_pieces (Suc l) (map (toks (Suc l)) (x # xs))) @ 10 # ind l @ 93 # rest =
        render ind (toks (Suc l) x) @ 44 # 10 # ind (Suc l) @ ?tail"
      using Cons by simp
    then show ?thesis using n s1 c44 w ih by simp
  qed
qed

lemma parse_object_items:
  assumes ws: "\<forall>d. list_all is_ws (ind d)"
  shows "its \<noteq> [] \<Longrightarrow> \<forall>kv\<in>set its. reads_back ind (snd kv) \<Longrightarrow> need_items its \<le> n \<Longrightarrow>
    distinct (map fst acc @ map fst its) \<Longrightarrow>
    parse_object n acc
      (render ind (sep_pieces (Suc l) (map (item_pieces (Suc l)) its)) @ 10 # ind l @ 125 # rest) =
    Some (JObject (acc @ map (\<lambda>kv. (fst kv, canon (snd kv))) its), rest)"
proof (induction its arbitrary: n acc)
  case Nil
  then show ?case by simp
next
  case (Cons kv its)
  from Cons.prems(3) obtain n' where n: "n = Suc n'" and nx: "need (snd kv) \<le> n'"
    and nr: "need_items its \<le> n'"
    by (cases n) auto
  have rb: "reads_back ind (snd kv)" using Cons.prems(2) by simp
  have fresh: "fst kv \<notin> fst ` set acc" using Cons.prems(4) by auto
  have upd: "AList.update (fst kv) (canon (snd kv)) acc = acc @ [(fst kv, canon (snd kv))]"
    using fresh by (induction acc) auto
  have dist: "distinct (map fst (acc @ [(fst kv, canon (snd kv))]) @ map fst its)"
    using Cons.prems(4) by auto
  have w125: "skip_ws (10 # ind l @ 125 # rest) = 125 # rest"
    using skip_ws_app[of "10 # ind l" 125 rest] ws by (simp add: is_ws_def)
  obtain c t where fv: "render ind (toks (Suc l) (snd kv)) = c # t" and vs: "value_start c"
    using render_toks_first by blast
  have key: "\<And>after. parse_object n acc
        (render ind (item_pieces (Suc l) kv) @ after) =
      (case scan_once n' (render ind (toks (Suc l) (snd kv)) @ after) of
         None \<Rightarrow> None
       | Some (v, r3) \<Rightarrow>
           (case skip_ws r3 of
              [] \<Rightarrow> None
            | d # r4 \<Rightarrow>
                if d = 125 then Some (JObject (AList.update (fst kv) v acc), r4)
                else if d = 44 then parse_object n' (AList.update (fst kv) v acc) (skip_ws r4)
                else None))"
  proof -
    fix after
    have sw: "skip_ws (32 # render ind (toks (Suc l) (snd kv)) @ after) =
        render ind (toks (Suc l) (snd kv)) @ after"
      unfolding fv using skip_ws_app[of "[32]" c "t @ after"] value_start_props[OF vs]
      by (simp add: is_ws_def)
    have c58: "skip_ws (58 # 32 # render ind (toks (Suc l) (snd kv)) @ after) =
        58 # 32 # render ind (toks (Suc l) (snd kv)) @ after"
      by (rule skip_ws_stop) (simp add: is_ws_def)
    have ss: "scanstring (concat (map escape_char (fst kv)) @
        34 # 58 # 32 # render ind (toks (Suc l) (snd kv)) @ after) =
        Some (fst kv, 58 # 32 # render ind (toks (Suc l) (snd kv)) @ after)"
      by (rule scanstring_encoded)
    show "parse_object n acc (render ind (item_pieces (Suc l) kv) @ after) =
      (case scan_once n' (render ind (toks (Suc l) (snd kv)) @ after) of
         None \<Rightarrow> None
       | Some (v, r3) \<Rightarrow>
           (case skip_ws r3 of
              [] \<Rightarrow> None
            | d # r4 \<Rightarrow>
                if d = 125 then Some (JObject (AList.update (fst kv) v acc), r4)
                else if d = 44 then parse_object n' (AList.update (fst kv) v acc) (skip_ws r4)
                else None))"
      unfolding n by (simp add: encode_string_def ss c58 sw)
  qed
  show ?case
  proof (cases its)
    case Nil
    have "scan_once n' (render ind (toks (Suc l) (snd kv)) @ 10 # ind l @ 125 # rest) =
        Some (canon (snd kv), 10 # ind l @ 125 # rest)"
      using reads_backD[OF rb nx] by simp
    then show ?thesis using Nil key[of "10 # ind l @ 125 # rest"] w125 upd by simp
  next
    case (Cons kv2 its2)
    let ?tail = "render ind (sep_pieces (Suc l) (map (item_pieces (Suc l)) its))
                 @ 10 # ind l @ 125 # rest"
    have s1: "scan_once n' (render ind (toks (Suc l) (snd kv)) @ 44 # 10 # ind (Suc l) @ ?tail) =
        Some (canon (snd kv), 44 # 10 # ind (Suc l) @ ?tail)"
      using reads_backD[OF rb nx] by simp
    have "\<exists>t'. ?tail = 34 # t'" using Cons by (cases its2) (simp_all add: encode_string_def)
    then obtain t' where tl: "?tail = 34 # t'" by blast
    have w: "skip_ws (10 # ind (Suc l) @ ?tail) = ?tail"
      unfolding tl using skip_ws_app[of "10 # ind (Suc l)" 34 t'] ws by (simp add: is_ws_def)
    have c44: "skip_ws (44 # 10 # ind (Suc l) @ ?tail) = 44 # 10 # ind (Suc l) @ ?tail"
      by (rule skip_ws_stop) (simp add: is_ws_def)
    have ih: "parse_object n' (acc @ [(fst kv, canon (snd kv))]) ?tail =
        Some (JObject ((acc @ [(fst kv, canon (snd kv))]) @
                map (\<lambda>kv. (fst kv, canon (snd kv))) its), rest)"
      using Cons.IH[of n' "acc @ [(fst kv, canon (snd kv))]"] Cons.prems(2) nr Cons dist by simp
    have "render ind (sep_pieces (Suc l) (map (item_pieces (Suc l)) (kv # its)))
            @ 10 # ind l @ 125 # rest =
        render ind (item_pieces (Suc l) kv) @ 44 # 10 # ind (Suc l) @ ?tail"
      using Cons by simp
    then show ?thesis using key[of "44 # 10 # ind (Suc l) @ ?tail"] s1 c44 w ih upd by simp
  qed
qed

lemma toks_object_items:
  "map (\<lambda>kp. Tok (encode_string (fst kp) @ [58, 32]) # snd kp) (sort_key fst (toks_items l a)) =
   map (item_pieces l) (sort_key fst a)"
  by (simp add: toks_items_map sort_key_map_snd comp_def)

lemma reads_back_all:
  assumes ws: "\<forall>d. list_all is_ws (ind d)"
  shows "decoded x \<Longrightarrow> reads_back ind x"
proof (induction x)
  case JNull
  show ?case unfolding reads_back_def
  proof (intro allI impI)
    fix l n rest assume "need JNull \<le> n"
    then obtain n' where "n = Suc n'" by (cases n) auto
    then show "scan_once n (render ind (toks l JNull) @ rest) = Some (canon JNull, rest)"
      by (simp add: py_def)
  qed
next
  case (JBool b)
  show ?case unfolding reads_back_def
  proof (intro allI impI)
    fix l n rest assume "need (JBool b) \<le> n"
    then obtain n' where "n = Suc n'" by (cases n) auto
    then show "scan_once n (render ind (toks l (JBool b)) @ rest) = Some (canon (JBool b), rest)"
      by (cases b) (simp_all add: py_def)
  qed
next
  case (JInt i)
  show ?case unfolding reads_back_def
  proof (intro allI impI)
    fix l n rest assume "need (JInt i) \<le> n" and ok: "ok_rest rest"
    then obtain n' where n: "n = Suc n'" by (cases n) auto
    have "\<exists>c t. int_repr i = c # t \<and> (c = 45 \<or> is_digit c)"
    proof (cases "i < 0")
      case True
      then show ?thesis by (simp add: int_repr_def)
    next
      case False
      then show ?thesis using digits_hd[of "nat i"] by (auto simp: int_repr_def)
    qed
    then obtain c t where ir: "int_repr i = c # t" and c: "c = 45 \<or> is_digit c" by blast
    have "scan_int (c # t @ rest) = Some (i, rest)"
      using scan_int_repr[OF ok, of i] ir by simp
    moreover have "take 4 (c # t @ rest) \<noteq> py ''null''" "take 4 (c # t @ rest) \<noteq> py ''true''"
      "take 5 (c # t @ rest) \<noteq> py ''false''" "c \<noteq> 34" "c \<noteq> 123" "c \<noteq> 91"
      using c by (auto simp: py_def is_digit_def)
    ultimately show "scan_once n (render ind (toks l (JInt i)) @ rest) = Some (canon (JInt i), rest)"
      using n ir by simp
  qed
next
  case (JString s)
  show ?case unfolding reads_back_def
  proof (intro allI impI)
    fix l n rest assume "need (JString s) \<le> n"
    then obtain n' where "n = Suc n'" by (cases n) auto
    then show "scan_once n (render ind (toks l (JString s)) @ rest) = Some (canon (JString s), rest)"
      by (simp add: encode_string_def scanstring_encoded)
  qed
next
  case (JArray xs)
  have rbs: "\<forall>x\<in>set xs. reads_back ind x"
    using JArray by (simp add: decoded_list_iff)
  show ?case unfolding reads_back_def
  proof (intro allI impI)
    fix l n rest assume nn: "need (JArray xs) \<le> n"
    then obtain n' where n: "n = Suc n'" and nl: "need_list xs \<le> n'" by (cases n) auto
    show "scan_once n (render ind (toks l (JArray xs)) @ rest) = Some (canon (JArray xs), rest)"
    proof (cases "xs = []")
      case True
      have "skip_ws (93 # rest) = 93 # rest" by (rule skip_ws_stop) (simp add: is_ws_def)
      then show ?thesis using True n by (simp add: py_def)
    next
      case False
      let ?els = "render ind (sep_pieces (Suc l) (map (toks (Suc l)) xs)) @ 10 # ind l @ 93 # rest"
      obtain x0 xs0 where xs: "xs = x0 # xs0" using False by (cases xs) auto
      obtain c t where ft: "render ind (toks (Suc l) x0) = c # t" and vs: "value_start c"
        using render_toks_first by blast
      have "\<exists>t'. ?els = c # t'" using xs ft by (cases xs0) simp_all
      then obtain t' where el: "?els = c # t'" by blast
      have w: "skip_ws (10 # ind (Suc l) @ ?els) = c # t'"
        unfolding el using skip_ws_app[of "10 # ind (Suc l)" c t'] ws value_start_props[OF vs]
        by (simp add: is_ws_def)
      have pa: "parse_array n' [] (c # t') = Some (JArray ([] @ map canon xs), rest)"
        using parse_array_elems[OF ws False rbs nl, of "[]" l rest] el by simp
      have "render ind (toks l (JArray xs)) @ rest = 91 # 10 # ind (Suc l) @ ?els"
        using False by (simp add: toks_list_map)
      then show ?thesis
        using n w pa value_start_props[OF vs] by (simp add: canon_list_map)
    qed
  qed
next
  case (JObject a)
  have da: "distinct (map fst a)" using JObject.prems by simp
  have rbs: "\<forall>kv\<in>set a. reads_back ind (snd kv)"
  proof
    fix kv assume kv: "kv \<in> set a"
    then have "decoded (snd kv)" using JObject.prems by (simp add: decoded_items_iff)
    then show "reads_back ind (snd kv)" using JObject.IH kv by (cases kv) (auto simp: snds.simps)
  qed
  show ?case unfolding reads_back_def
  proof (intro allI impI)
    fix l n rest assume nn: "need (JObject a) \<le> n"
    then obtain n' where n: "n = Suc n'" and nl: "need_items a \<le> n'" by (cases n) auto
    show "scan_once n (render ind (toks l (JObject a)) @ rest) = Some (canon (JObject a), rest)"
    proof (cases "a = []")
      case True
      have "skip_ws (125 # rest) = 125 # rest" by (rule skip_ws_stop) (simp add: is_ws_def)
      then show ?thesis using True n by (simp add: py_def)
    next
      case False
      let ?its = "sort_key fst a"
      let ?els = "render ind (sep_pieces (Suc l) (map (item_pieces (Suc l)) ?its))
                  @ 10 # ind l @ 125 # rest"
      have ne: "?its \<noteq> []" using False by (metis length_0_conv length_sort)
      then obtain kv0 its0 where its: "?its = kv0 # its0" by (cases ?its) auto
      have "\<exists>t'. ?els = 34 # t'" unfolding its by (cases its0) (simp_all add: encode_string_def)
      then obtain t' where el: "?els = 34 # t'" by blast
      have w: "skip_ws (10 # ind (Suc l) @ ?els) = 34 # t'"
        unfolding el using skip_ws_app[of "10 # ind (Suc l)" 34 t'] ws by (simp add: is_ws_def)
      have rbs': "\<forall>kv\<in>set ?its. reads_back ind (snd kv)" using rbs by simp
      have nl': "need_items ?its \<le> n'" using nl by (simp add: need_items_sort)
      have dist: "distinct (map fst [] @ map fst ?its)"
        using da by (simp add: distinct_map)
      have po: "parse_object n' [] (34 # t') =
          Some (JObject ([] @ map (\<lambda>kv. (fst kv, canon (snd kv))) ?its), rest)"
        using parse_object_items[OF ws ne rbs' nl' dist, of l rest] el by simp
      have "render ind (toks l (JObject a)) @ rest = 123 # 10 # ind (Suc l) @ ?els"
        using False by (simp add: toks_object_items)
      then show ?thesis
        using n w po by (simp add: canon_items_map sort_key_map_snd)
    qed
  qed
qed

lemma need_list_sum: "need_list xs = sum_list (map (\<lambda>x. 1 + need x) xs)"
  by (induction xs) simp_all

lemma sep_pieces_length:
  "\<forall>x\<in>set xs. f x \<le> length (render ind (g x)) \<Longrightarrow>
   sum_list (map (\<lambda>x. 1 + f x) xs) \<le> length (render ind (sep_pieces l (map g xs))) + 1"
proof (induction xs)
  case Nil
  then show ?case by simp
next
  case (Cons x xs)
  show ?case
  proof (cases xs)
    case Nil
    then show ?thesis using Cons.prems by simp
  next
    case (Cons y ys)
    have "sum_list (map (\<lambda>x. 1 + f x) xs) \<le> length (render ind (sep_pieces l (map g xs))) + 1"
      using Cons.IH Cons.prems by simp
    moreover have "f x \<le> length (render ind (g x))" using Cons.prems by simp
    ultimately show ?thesis using Cons by simp
  qed
qed

lemma need_length: "need x \<le> length (render ind (toks l x))"
proof (induction x arbitrary: l)
  case JNull
  show ?case by (simp add: py_def)
next
  case (JBool b)
  show ?case by (simp add: py_def)
next
  case (JInt i)
  have "int_repr i \<noteq> []" using int_repr_ok[of i] by (simp add: tok_ok_def)
  then show ?case by (cases "int_repr i") simp_all
next
  case (JString s)
  show ?case by (simp add: encode_string_def)
next
  case (JArray xs)
  show ?case
  proof (cases "xs = []")
    case True
    then show ?thesis by (simp add: py_def)
  next
    case False
    have "\<forall>x\<in>set xs. need x \<le> length (render ind (toks (Suc l) x))"
      using JArray by simp
    from sep_pieces_length[of xs need ind "toks (Suc l)" "Suc l", OF this]
    show ?thesis using False by (simp add: need_list_sum toks_list_map)
  qed
next
  case (JObject a)
  show ?case
  proof (cases "a = []")
    case True
    then show ?thesis by (simp add: py_def)
  next
    case False
    have "\<forall>kv\<in>set (sort_key fst a). need (snd kv) \<le> length (render ind (item_pieces (Suc l) kv))"
    proof
      fix kv assume "kv \<in> set (sort_key fst a)"
      then have "kv \<in> set a" by simp
      then have "need (snd kv) \<le> length (render ind (toks (Suc l) (snd kv)))"
        using JObject by (cases kv) (auto simp: snds.simps)
      then show "need (snd kv) \<le> length (render ind (item_pieces (Suc l) kv))" by simp
    qed
    from sep_pieces_length[of "sort_key fst a" "\<lambda>kv. need (snd kv)" ind "item_pieces (Suc l)" "Suc l", OF this]
    have "need_items (sort_key fst a) \<le>
        length (render ind (sep_pieces (Suc l) (map (item_pieces (Suc l)) (sort_key fst a)))) + 1"
      by (simp add: need_items_sum)
    then show ?thesis using False by (simp add: need_items_sort toks_object_items)
  qed
qed

lemma py_eq_items_iff:
  "py_eq_items b a =
   (\<forall>kv\<in>set b. case map_of a (fst kv) of None \<Rightarrow> False | Some w \<Rightarrow> py_eq (snd kv) w)"
  by (induction b) (auto split: option.splits)

lemma py_eq_list_map:
  "\<forall>x\<in>set xs. py_eq (f x) x \<Longrightarrow> py_eq_list (map f xs) xs"
  by (induction xs) simp_all

lemma py_eq_canon: "decoded x \<Longrightarrow> py_eq (canon x) x"
proof (induction x)
  case (JArray xs)
  then have "\<forall>x\<in>set xs. py_eq (canon x) x" by (simp add: decoded_list_iff)
  then show ?case by (simp add: canon_list_map py_eq_list_map)
next
  case (JObject a)
  have da: "distinct (map fst a)" using JObject.prems by simp
  have "\<forall>kv\<in>set (sort_key fst (canon_items a)).
          case map_of a (fst kv) of None \<Rightarrow> False | Some w \<Rightarrow> py_eq (snd kv) w"
  proof
    fix kv assume "kv \<in> set (sort_key fst (canon_items a))"
    then obtain kv0 where kv0: "kv0 \<in> set a" and kv: "kv = (fst kv0, canon (snd kv0))"
      by (auto simp: canon_items_map)
    have "map_of a (fst kv0) = Some (snd kv0)" using da kv0 by simp
    moreover have "py_eq (canon (snd kv0)) (snd kv0)"
      using JObject.IH kv0 JObject.prems by (cases kv0) (auto simp: snds.simps decoded_items_iff)
    ultimately show "case map_of a (fst kv) of None \<Rightarrow> False | Some w \<Rightarrow> py_eq (snd kv) w"
      using kv by simp
  qed
  then show ?case by (simp add: py_eq_items_iff canon_items_map)
qed simp_all





lemma tab_line_chars:
  "list_all (\<lambda>c. c = 9 \<or> c = 32) t \<Longrightarrow> list_all (\<lambda>c. c = 9 \<or> c = 32) (tab_line i t)"
  by (auto simp: tab_line_def list_all_iff dest: in_set_dropD)

lemma sub_indents_render:
  "\<forall>i\<in>set js. 0 < i \<Longrightarrow> \<forall>d. list_all (\<lambda>c. c = 9 \<or> c = 32) (ind d) \<Longrightarrow>
   wf_pieces ps \<Longrightarrow> starts_tok ps \<Longrightarrow>
   foldl (\<lambda>text i. sub_indent i text) (render ind ps) js =
   render (\<lambda>d. foldl (\<lambda>t i. tab_line i t) (ind d) js) ps"
proof (induction js arbitrary: ind)
  case Nil
  show ?case by simp
next
  case (Cons j js)
  have nl: "\<forall>d. 10 \<notin> set (ind d)"
  proof (intro allI notI)
    fix d assume "10 \<in> set (ind d)"
    moreover have "\<forall>c\<in>set (ind d). c = 9 \<or> c = 32"
      using Cons.prems(2) by (simp add: list_all_iff)
    ultimately show False by auto
  qed
  have j: "0 < j" using Cons.prems(1) by simp
  have ch: "\<forall>d. list_all (\<lambda>c. c = 9 \<or> c = 32) (tab_line j (ind d))"
    using Cons.prems(2) tab_line_chars by blast
  have "foldl (\<lambda>text i. sub_indent i text) (render (\<lambda>d. tab_line j (ind d)) ps) js =
        render (\<lambda>d. foldl (\<lambda>t i. tab_line i t) (tab_line j (ind d)) js) ps"
    using Cons.IH[of "\<lambda>d. tab_line j (ind d)"] Cons.prems(1) ch Cons.prems(3,4) by simp
  then show ?case using sub_indent_render[OF j nl Cons.prems(3,4)] by simp
qed

lemma foldl_tab_line_chars:
  "list_all (\<lambda>c. c = 9 \<or> c = 32) t \<Longrightarrow>
   list_all (\<lambda>c. c = 9 \<or> c = 32) (foldl (\<lambda>t i. tab_line i t) t js)"
  by (induction js arbitrary: t) (simp_all add: tab_line_chars)

lemma tabs_ws: "list_all is_ws (tabs d)"
proof -
  have "list_all (\<lambda>c. c = 9 \<or> c = 32) (spaces d)" by (simp add: spaces_def list_all_iff)
  then have "list_all (\<lambda>c. c = 9 \<or> c = 32) (tabs d)"
    unfolding tabs_def by (rule foldl_tab_line_chars)
  then show ?thesis by (auto simp: list_all_iff is_ws_def)
qed

lemma format_json_safe:
  assumes "safe_text (dumps 0 x)"
  shows "format_json x = render tabs (toks 0 x) @ [10]"
proof -
  let ?s = "dumps 0 x"
  have r: "replace [8216] [39] ?s = ?s" "replace [8217] [39] ?s = ?s"
    "replace [8722] [45] ?s = ?s" "replace [8211] [45] ?s = ?s"
    "replace [92, 114, 92, 110] [92, 110] ?s = ?s" "replace [32, 92, 110] [92, 110] ?s = ?s"
    "replace [93, 91] [93, 32, 91] ?s = ?s"
    using assms by (simp_all add: safe_text_def replace_absent)
  have sp: "\<forall>d. list_all (\<lambda>c. c = 9 \<or> c = 32) (spaces d)"
    by (simp add: spaces_def list_all_iff)
  have "foldl (\<lambda>text i. sub_indent i text) (render spaces (toks 0 x)) [8, 7, 6, 5, 4, 3, 2, 1] =
        render (\<lambda>d. foldl (\<lambda>t i. tab_line i t) (spaces d) [8, 7, 6, 5, 4, 3, 2, 1]) (toks 0 x)"
    by (rule sub_indents_render[OF _ sp toks_wf toks_starts]) simp
  moreover have "tabs = (\<lambda>d. foldl (\<lambda>t i. tab_line i t) (spaces d) [8, 7, 6, 5, 4, 3, 2, 1])"
    by (rule ext) (simp add: tabs_def)
  ultimately have "foldl (\<lambda>text i. sub_indent i text) ?s [8, 7, 6, 5, 4, 3, 2, 1] =
      render tabs (toks 0 x)"
    by (simp only: dumps_render)
  then show ?thesis unfolding format_json_def Let_def r by simp
qed

lemma json_loads_format:
  assumes dx: "decoded x" and safe: "safe_text (dumps 0 x)"
  shows "json_loads (format_json x) = Some (canon x)"
proof -
  let ?t = "render tabs (toks 0 x)"
  have f: "format_json x = ?t @ [10]" by (rule format_json_safe[OF safe])
  obtain c t where ct: "?t = c # t" and vs: "value_start c" using render_toks_first by blast
  have ws: "\<forall>d. list_all is_ws (tabs d)" by (simp add: tabs_ws)
  have rb: "reads_back tabs x" by (rule reads_back_all[OF ws dx])
  have "need x \<le> 2 * length (?t @ [10]) + 1"
    using need_length[of x tabs 0] by simp
  then have sc: "scan_once (2 * length (?t @ [10]) + 1) (?t @ [10]) = Some (canon x, [10])"
    using reads_backD[OF rb, of "2 * length (?t @ [10]) + 1" "[10]" 0] by simp
  have sk: "skip_ws (?t @ [10]) = ?t @ [10]"
    unfolding ct using skip_ws_stop[of c "t @ [10]"] value_start_props[OF vs] by simp
  have bom: "take 1 (?t @ [10]) \<noteq> [65279]"
    unfolding ct using value_start_props[OF vs] by simp
  have e: "skip_ws [10] = []" using skip_ws_app[of "[10]"] by (simp add: skip_ws_def is_ws_def)
  show ?thesis unfolding f json_loads_def using bom sc sk e by simp
qed

lemma digits_small: "n < 10 \<Longrightarrow> digits n = [48 + n]"
  by (simp add: digits.simps)

lemma ex_value_decoded: "decoded ex_value"
  by (simp add: ex_value_def py_def)

lemma ex_value_safe: "safe_text (dumps 0 ex_value)"
  by (simp add: ex_value_def safe_text_def format_eval digits_small)

lemma ex_value_canon:
  "canon ex_value =
     JObject [(py ''code'', JString (py ''A1'')),
              (py ''name'', JString (py ''Noise'')),
              (py ''tags'', JArray [JInt 1, JInt (- 2), JNull, JBool True, JArray [], JObject []])]"
  by (simp add: ex_value_def py_def)

text \<open>
  Claim C4. Let \<open>x\<close> be a decoded value (null, booleans, integers, strings, arrays,
  objects with distinct keys) whose rendering by \<open>json.dumps\<close> holds none of the patterns
  that \<open>format_json\<close> rewrites (curly single quotes, minus sign, en dash, the escapes
  \<open>\r\n\<close> and space before \<open>\n\<close>, \<open>][\<close>). Then \<open>json.loads\<close> reads \<open>format_json x\<close> back as
  \<open>x\<close> with the items of every object sorted by key, and this value is equal to \<open>x\<close>
  for Python's \<open>==\<close>, whatever the order of the keys in \<open>x\<close>.
\<close>

theorem round_trip:
  assumes "decoded x" and "safe_text (dumps 0 x)"
  shows "json_loads (format_json x) = Some (canon x) \<and> py_eq (canon x) x"
  using assms by (simp add: json_loads_format py_eq_canon)

theorem round_trip_witness:
  "decoded ex_value \<and> safe_text (dumps 0 ex_value) \<and>
   json_loads (format_json ex_value) = Some (canon ex_value) \<and> py_eq (canon ex_value) ex_value"
  using round_trip[OF ex_value_decoded ex_value_safe] ex_value_decoded ex_value_safe
  by (intro conjI) simp_all

text \<open>
  Without the condition on the rendering the value read back can differ: the string
  made of one right curly quote is read back as a straight apostrophe.
\<close>

theorem round_trip_counterexample:
  "decoded ex_quote \<and> format_json ex_quote = [34, 39, 34, 10] \<and>
   json_loads (format_json ex_quote) = Some (JString [39]) \<and>
   \<not> py_eq (JString [39]) ex_quote"
  by (simp add: ex_quote_def format_eval parse_eval
      cong: list.case_cong_weak option.case_cong_weak prod.case_cong_weak)




end
